theory Spec2Isabelle
  imports Main "HOL-Library.List_Lexorder" "HOL-Library.Multiset"
begin

section \<open>Data model (api.tsx)\<close>

text \<open>
  \<^verbatim>\<open>DriveFolder\<close> and \<^verbatim>\<open>DriveFile\<close> of api.tsx. Ids are JavaScript numbers handed out
  by the server, modelled as \<open>int\<close>; \<^verbatim>\<open>number | null\<close> is \<open>int option\<close>. A
  \<^verbatim>\<open>DriveFile\<close> has every field of a \<^verbatim>\<open>DriveFolder\<close> and six more, so it is the record
  extension. The field \<^verbatim>\<open>id\<close> is written \<open>id'\<close> and \<^verbatim>\<open>type\<close> is written \<open>type'\<close>.
\<close>

text \<open>
  A JavaScript string is modelled as the list of its UTF-16 code units, so that \<open><\<close>
  on lists (lexicographic, a proper prefix first) is the \<^verbatim>\<open><\<close> of JavaScript on
  strings. \<open>js\<close> writes a string of ASCII characters.
\<close>

type_synonym jsstring = "nat list"

definition js :: "string \<Rightarrow> jsstring" where
  "js s = map (\<lambda>c. of_char c) s"

record DriveFolder =
  id' :: int
  name :: jsstring
  parentId :: "int option"
  trashed :: bool
  originalParentId :: "int option"

record DriveFile = DriveFolder +
  type' :: jsstring
  ownerId :: int
  sizeBytes :: int
  starred :: bool
  isShared :: bool
  modifiedAt :: jsstring

record DriveState =
  rootFolderId :: int
  folders :: "DriveFolder list"
  files :: "DriveFile list"

datatype SortBy = ByName | ByModifiedAt
datatype SortDir = Asc | Desc
datatype Section = MyDrive | Starred | Shared | Trash

text \<open>
  The React state of the \<^verbatim>\<open>FileBrowser\<close> component that the handlers read and write.
  \<^verbatim>\<open>state\<close> is \<^verbatim>\<open>DriveState | null\<close>.
\<close>

record Browser =
  state :: "DriveState option"
  section' :: Section
  currentFolderId :: "int option"
  sortBy :: SortBy
  sortDir :: SortDir
  search :: jsstring
  selectedIds :: "int list"
  loading :: bool
  error :: "jsstring option"

text \<open>A JavaScript \<^verbatim>\<open>Set<number>\<close>: the members in insertion order, each once.\<close>

definition set_add :: "int \<Rightarrow> int list \<Rightarrow> int list" where
  "set_add x xs = (if x \<in> set xs then xs else xs @ [x])"

text \<open>\<^verbatim>\<open>a ?? b\<close> on \<^verbatim>\<open>number | null\<close>.\<close>

definition nullish :: "int option \<Rightarrow> int option \<Rightarrow> int option" where
  "nullish a b = (case a of None \<Rightarrow> b | Some v \<Rightarrow> Some v)"

section \<open>The cascade of moveToTrash and restore (FileBrowser.tsx, collectChildren)\<close>

text \<open>
  The two handlers each declare a closure \<^verbatim>\<open>collectChildren\<close> over the sets
  \<^verbatim>\<open>folderIds\<close> and \<^verbatim>\<open>fileIds\<close>. The two closures differ only in the test on
  \<^verbatim>\<open>trashed\<close>: \<^verbatim>\<open>!f.trashed && f.parentId === folderId\<close> in handleMoveToTrashSelected,
  \<^verbatim>\<open>f.parentId === folderId && f.trashed\<close> in handleRestoreSelected. The flag \<open>t\<close> is the
  value of \<^verbatim>\<open>trashed\<close> the closure looks for. The pair is (folderIds, fileIds).
  \<open>collectFolders\<close> is the \<^verbatim>\<open>state.folders.forEach\<close> loop of the closure, with the
  folders still to visit; \<open>collectFiles\<close> is its \<^verbatim>\<open>state.files.forEach\<close> loop.
\<close>

definition collectFiles :: "bool \<Rightarrow> DriveState \<Rightarrow> int \<Rightarrow> int list \<Rightarrow> int list" where
  "collectFiles t st folderId fileIds =
     fold (\<lambda>file acc. if trashed file = t \<and> parentId file = Some folderId
                       then set_add (id' file) acc else acc) (files st) fileIds"

function collectChildren :: "bool \<Rightarrow> DriveState \<Rightarrow> int \<Rightarrow> int list \<times> int list \<Rightarrow> int list \<times> int list"
  and collectFolders :: "bool \<Rightarrow> DriveState \<Rightarrow> int \<Rightarrow> DriveFolder list \<Rightarrow> int list \<times> int list \<Rightarrow> int list \<times> int list"
where
  "collectChildren t st folderId acc =
     (let acc' = collectFolders t st folderId (folders st) acc
      in (fst acc', collectFiles t st folderId (snd acc')))"
| "collectFolders t st folderId [] acc = acc"
| "collectFolders t st folderId (f # fs) acc =
     (if trashed f = t \<and> parentId f = Some folderId \<and> id' f \<notin> set (fst acc)
      then collectFolders t st folderId fs
             (collectChildren t st (id' f) (set_add (id' f) (fst acc), snd acc))
      else collectFolders t st folderId fs acc)"
  by pat_completeness auto

text \<open>
  The recursion ends because every recursive call of the closure is made on a folder id
  that has just been added to \<^verbatim>\<open>folderIds\<close>, and only ids of folders are ever added.
\<close>

lemma collect_mono_dom:
  "collectChildren_collectFolders_dom (Inl (t, st, v, acc)) \<Longrightarrow>
     set (fst acc) \<subseteq> set (fst (collectChildren t st v acc))"
  "collectChildren_collectFolders_dom (Inr (t, st, v, fs, acc)) \<Longrightarrow>
     set (fst acc) \<subseteq> set (fst (collectFolders t st v fs acc))"
proof (induction t st v acc and t st v fs acc rule: collectChildren_collectFolders.pinduct)
  case (1 t st folderId acc)
  then show ?case by (simp add: collectChildren.psimps Let_def)
next
  case (2 t st folderId acc)
  then show ?case by (simp add: collectFolders.psimps)
next
  case (3 t st folderId f fs acc)
  then show ?case
    by (auto simp: collectFolders.psimps set_add_def split: if_splits)
qed

termination collectChildren
proof (relation "inv_image (less_than <*lex*> less_than <*lex*> less_than)
    (\<lambda>x. case x of
       Inl (t, st, v, acc) \<Rightarrow> (card (id' ` set (folders st) - set (fst acc)), 1::nat, 0::nat)
     | Inr (t, st, v, fs, acc) \<Rightarrow>
         (card ((id' ` set (folders st) \<union> id' ` set fs) - set (fst acc)), 0, length fs))", goal_cases)
  case 1
  show ?case by (intro wf_inv_image wf_lex_prod wf_less_than)
next
  case (2 t st folderId acc)
  show ?case by simp
next
  case (3 t st folderId f fs acc)
  have "id' ` set (folders st) - set (set_add (id' f) (fst acc))
        \<subset> (id' ` set (folders st) \<union> id' ` set (f # fs)) - set (fst acc)"
    using 3 by (auto simp: set_add_def)
  then have "card (id' ` set (folders st) - set (set_add (id' f) (fst acc)))
        < card ((id' ` set (folders st) \<union> id' ` set (f # fs)) - set (fst acc))"
    by (intro psubset_card_mono) auto
  then show ?case by simp
next
  case (4 t st folderId f fs acc)
  let ?acc' = "collectChildren t st (id' f) (set_add (id' f) (fst acc), snd acc)"
  have "set (fst acc) \<subseteq> set (fst ?acc')"
    using collect_mono_dom(1)[OF 4(2)] by (auto simp: set_add_def split: if_splits)
  then have "(id' ` set (folders st) \<union> id' ` set fs) - set (fst ?acc')
        \<subseteq> (id' ` set (folders st) \<union> id' ` set (f # fs)) - set (fst acc)"
    by auto
  then have "card ((id' ` set (folders st) \<union> id' ` set fs) - set (fst ?acc'))
        \<le> card ((id' ` set (folders st) \<union> id' ` set (f # fs)) - set (fst acc))"
    by (intro card_mono) auto
  then show ?case by auto
next
  case (5 t st folderId f fs acc)
  have "card ((id' ` set (folders st) \<union> id' ` set fs) - set (fst acc))
        \<le> card ((id' ` set (folders st) \<union> id' ` set (f # fs)) - set (fst acc))"
    by (intro card_mono) auto
  then show ?case by auto
qed

declare collectChildren.simps [simp del]

section \<open>The cascade of permanentDelete (FileBrowser.tsx, markFolderAndChildren)\<close>

text \<open>
  \<^verbatim>\<open>markFolderAndChildren\<close> of handlePermanentDeleteSelected, over the pair
  (foldersToDelete, filesToDelete). It returns at once on a folder id already marked
  and follows every folder whose \<^verbatim>\<open>parentId\<close> is the id, trashed or not.
  \<open>markFolders\<close> is its \<^verbatim>\<open>state.folders.forEach\<close> loop, \<open>markFiles\<close> its
  \<^verbatim>\<open>state.files.forEach\<close> loop.
\<close>

definition markFiles :: "DriveState \<Rightarrow> int \<Rightarrow> int list \<Rightarrow> int list" where
  "markFiles st folderId filesToDelete =
     fold (\<lambda>file acc. if parentId file = Some folderId then set_add (id' file) acc else acc)
       (files st) filesToDelete"

function markFolderAndChildren :: "DriveState \<Rightarrow> int \<Rightarrow> int list \<times> int list \<Rightarrow> int list \<times> int list"
  and markFolders :: "DriveState \<Rightarrow> int \<Rightarrow> DriveFolder list \<Rightarrow> int list \<times> int list \<Rightarrow> int list \<times> int list"
where
  "markFolderAndChildren st folderId acc =
     (if folderId \<in> set (fst acc) then acc
      else let acc' = markFolders st folderId (folders st) (set_add folderId (fst acc), snd acc)
           in (fst acc', markFiles st folderId (snd acc')))"
| "markFolders st folderId [] acc = acc"
| "markFolders st folderId (f # fs) acc =
     (if parentId f = Some folderId
      then markFolders st folderId fs (markFolderAndChildren st (id' f) acc)
      else markFolders st folderId fs acc)"
  by pat_completeness auto

lemma mark_mono_dom:
  "markFolderAndChildren_markFolders_dom (Inl (st, v, acc)) \<Longrightarrow>
     set (fst acc) \<subseteq> set (fst (markFolderAndChildren st v acc))"
  "markFolderAndChildren_markFolders_dom (Inr (st, v, fs, acc)) \<Longrightarrow>
     set (fst acc) \<subseteq> set (fst (markFolders st v fs acc))"
proof (induction st v acc and st v fs acc rule: markFolderAndChildren_markFolders.pinduct)
  case (1 st folderId acc)
  then show ?case
    by (auto simp: markFolderAndChildren.psimps Let_def set_add_def split: if_splits)
next
  case (2 st folderId acc)
  then show ?case by (simp add: markFolders.psimps)
next
  case (3 st folderId f fs acc)
  then show ?case
    by (auto simp: markFolders.psimps split: if_splits)
qed

termination markFolderAndChildren
proof (relation "inv_image (less_than <*lex*> less_than <*lex*> less_than)
    (\<lambda>x. case x of
       Inl (st, v, acc) \<Rightarrow> (card (insert v (id' ` set (folders st)) - set (fst acc)), 0::nat, 0::nat)
     | Inr (st, v, fs, acc) \<Rightarrow>
         (card ((id' ` set (folders st) \<union> id' ` set fs) - set (fst acc)), 1, length fs))", goal_cases)
  case 1
  show ?case by (intro wf_inv_image wf_lex_prod wf_less_than)
next
  case (2 st folderId acc)
  have "(id' ` set (folders st) \<union> id' ` set (folders st)) - set (set_add folderId (fst acc))
        \<subset> insert folderId (id' ` set (folders st)) - set (fst acc)"
    using 2 by (auto simp: set_add_def)
  then have "card ((id' ` set (folders st) \<union> id' ` set (folders st)) - set (set_add folderId (fst acc)))
        < card (insert folderId (id' ` set (folders st)) - set (fst acc))"
    by (intro psubset_card_mono) auto
  then show ?case by simp
next
  case (3 st folderId f fs acc)
  have "card (insert (id' f) (id' ` set (folders st)) - set (fst acc))
        \<le> card ((id' ` set (folders st) \<union> id' ` set (f # fs)) - set (fst acc))"
    by (intro card_mono) auto
  then show ?case by auto
next
  case (4 st folderId f fs acc)
  let ?acc' = "markFolderAndChildren st (id' f) acc"
  have "set (fst acc) \<subseteq> set (fst ?acc')"
    using mark_mono_dom(1)[OF 4(2)] .
  then have "(id' ` set (folders st) \<union> id' ` set fs) - set (fst ?acc')
        \<subseteq> (id' ` set (folders st) \<union> id' ` set (f # fs)) - set (fst acc)"
    by auto
  then have "card ((id' ` set (folders st) \<union> id' ` set fs) - set (fst ?acc'))
        \<le> card ((id' ` set (folders st) \<union> id' ` set (f # fs)) - set (fst acc))"
    by (intro card_mono) auto
  then show ?case by auto
next
  case (5 st folderId f fs acc)
  have "card ((id' ` set (folders st) \<union> id' ` set fs) - set (fst acc))
        \<le> card ((id' ` set (folders st) \<union> id' ` set (f # fs)) - set (fst acc))"
    by (intro card_mono) auto
  then show ?case by auto
qed

declare markFolderAndChildren.simps [simp del]

section \<open>The handlers of FileBrowser.tsx\<close>

text \<open>
  \<^verbatim>\<open>const folders = state?.folders ?? []\<close>, \<^verbatim>\<open>const files = state?.files ?? []\<close> and
  \<^verbatim>\<open>hasTrash\<close>.
\<close>

definition foldersOf :: "Browser \<Rightarrow> DriveFolder list" where
  "foldersOf b = (case state b of None \<Rightarrow> [] | Some st \<Rightarrow> folders st)"

definition filesOf :: "Browser \<Rightarrow> DriveFile list" where
  "filesOf b = (case state b of None \<Rightarrow> [] | Some st \<Rightarrow> files st)"

definition hasTrash :: "Browser \<Rightarrow> bool" where
  "hasTrash b = (list_ex trashed (foldersOf b) \<or> list_ex trashed (filesOf b))"

subsection \<open>loadState, handleStarToggle, handleShareToggle\<close>

text \<open>
  \<^verbatim>\<open>loadState\<close>, given what \<^verbatim>\<open>apiFetchState\<close> answers: \<open>Inl\<close> the message of the error
  it throws, \<open>Inr\<close> the snapshot.
\<close>

definition loadState :: "jsstring + DriveState \<Rightarrow> Browser \<Rightarrow> Browser" where
  "loadState fetched b =
     (case fetched of
        Inr s \<Rightarrow> b\<lparr>error := None, state := Some s, currentFolderId := Some (rootFolderId s),
                    loading := False\<rparr>
      | Inl msg \<Rightarrow> b\<lparr>error := Some msg, loading := False\<rparr>)"

text \<open>
  The toggles up to their \<^verbatim>\<open>await\<close>: the lookup of the file, the early return and the
  optimistic \<^verbatim>\<open>setState\<close>. The spread \<^verbatim>\<open>{ ...f, starred: next }\<close> copies every other
  field.
\<close>

definition starToggleLocal :: "int \<Rightarrow> Browser \<Rightarrow> Browser" where
  "starToggleLocal fileId b =
     (case find (\<lambda>f. id' f = fileId) (filesOf b) of
        None \<Rightarrow> b
      | Some file \<Rightarrow>
          (let next = \<not> starred file in
           case state b of
             None \<Rightarrow> b
           | Some prev \<Rightarrow>
               b\<lparr>state := Some (prev\<lparr>files :=
                     map (\<lambda>f. if id' f = fileId then f\<lparr>starred := next\<rparr> else f) (files prev)\<rparr>)\<rparr>))"

definition shareToggleLocal :: "int \<Rightarrow> Browser \<Rightarrow> Browser" where
  "shareToggleLocal fileId b =
     (case find (\<lambda>f. id' f = fileId) (filesOf b) of
        None \<Rightarrow> b
      | Some file \<Rightarrow>
          (let next = \<not> isShared file in
           case state b of
             None \<Rightarrow> b
           | Some prev \<Rightarrow>
               b\<lparr>state := Some (prev\<lparr>files :=
                     map (\<lambda>f. if id' f = fileId then f\<lparr>isShared := next\<rparr> else f) (files prev)\<rparr>)\<rparr>))"

text \<open>
  The whole toggle. \<open>remote\<close> is the outcome of \<^verbatim>\<open>apiUpdateFile\<close>: \<open>None\<close> when it
  succeeds (its answer is dropped), \<open>Some fetched\<close> when it throws, \<open>fetched\<close> being what
  the reload of \<^verbatim>\<open>loadState\<close> then gets.
\<close>

definition handleStarToggle :: "(jsstring + DriveState) option \<Rightarrow> int \<Rightarrow> Browser \<Rightarrow> Browser" where
  "handleStarToggle remote fileId b =
     (case find (\<lambda>f. id' f = fileId) (filesOf b) of
        None \<Rightarrow> b
      | Some file \<Rightarrow>
          (case remote of
             None \<Rightarrow> starToggleLocal fileId b
           | Some fetched \<Rightarrow> loadState fetched (starToggleLocal fileId b)))"

definition handleShareToggle :: "(jsstring + DriveState) option \<Rightarrow> int \<Rightarrow> Browser \<Rightarrow> Browser" where
  "handleShareToggle remote fileId b =
     (case find (\<lambda>f. id' f = fileId) (filesOf b) of
        None \<Rightarrow> b
      | Some file \<Rightarrow>
          (case remote of
             None \<Rightarrow> shareToggleLocal fileId b
           | Some fetched \<Rightarrow> loadState fetched (shareToggleLocal fileId b)))"

subsection \<open>handleMoveToTrashSelected\<close>

text \<open>
  The sets \<^verbatim>\<open>folderIds\<close> and \<^verbatim>\<open>fileIds\<close> of the handler: first the selected items
  that are not trashed, then \<^verbatim>\<open>Array.from(folderIds).forEach(collectChildren)\<close>, which
  runs the closure on the folder ids selected so far, in their order.
\<close>

definition trashSelected :: "DriveState \<Rightarrow> int list \<Rightarrow> int list \<times> int list" where
  "trashSelected st sel =
     (fold (\<lambda>f acc. if \<not> trashed f \<and> id' f \<in> set sel then set_add (id' f) acc else acc)
        (folders st) [],
      fold (\<lambda>f acc. if \<not> trashed f \<and> id' f \<in> set sel then set_add (id' f) acc else acc)
        (files st) [])"

definition trashSets :: "DriveState \<Rightarrow> int list \<Rightarrow> int list \<times> int list" where
  "trashSets st sel =
     (let init = trashSelected st sel
      in fold (\<lambda>folderId acc. collectChildren False st folderId acc) (fst init) init)"

text \<open>
  The object \<^verbatim>\<open>{ ...f, trashed: true, originalParentId: f.originalParentId ?? f.parentId }\<close>,
  for a folder and for a file.
\<close>

definition trashItem :: "'a DriveFolder_scheme \<Rightarrow> 'a DriveFolder_scheme" where
  "trashItem f = f\<lparr>trashed := True, originalParentId := nullish (originalParentId f) (parentId f)\<rparr>"

text \<open>
  The handler. \<open>confirmed\<close> is the answer of \<^verbatim>\<open>window.confirm\<close>. The remote updates are
  sent with \<^verbatim>\<open>void\<close> and nothing waits for them or catches their failure, so they
  leave the local state alone and are not part of the model. In
  \<^verbatim>\<open>currentFolderId && folderIds.has(currentFolderId)\<close> the number 0 is falsy.
\<close>

definition handleMoveToTrashSelected :: "bool \<Rightarrow> Browser \<Rightarrow> Browser" where
  "handleMoveToTrashSelected confirmed b =
     (case state b of
        None \<Rightarrow> b
      | Some st \<Rightarrow>
          if selectedIds b = [] then b
          else if \<not> confirmed then b
          else
            (let ids = trashSets st (selectedIds b);
                 folderIds = fst ids;
                 fileIds = snd ids;
                 st' = st\<lparr>folders := map (\<lambda>f. if id' f \<in> set folderIds then trashItem f else f) (folders st),
                          files := map (\<lambda>f. if id' f \<in> set fileIds then trashItem f else f) (files st)\<rparr>;
                 b' = b\<lparr>state := Some st', selectedIds := []\<rparr>
             in case currentFolderId b of
                  None \<Rightarrow> b'
                | Some c \<Rightarrow>
                    if c \<noteq> 0 \<and> c \<in> set folderIds
                    then b'\<lparr>currentFolderId := Some (rootFolderId st), section' := MyDrive\<rparr>
                    else b'))"

subsection \<open>handleRestoreSelected\<close>

text \<open>
  The sets of the handler: for every trashed selected folder, in the order of
  \<^verbatim>\<open>state.folders\<close>, add its id and run the closure on it; then add the trashed
  selected files.
\<close>

definition restoreSets :: "DriveState \<Rightarrow> int list \<Rightarrow> int list \<times> int list" where
  "restoreSets st sel =
     (let acc = fold (\<lambda>f acc. if trashed f \<and> id' f \<in> set sel
                               then collectChildren True st (id' f) (set_add (id' f) (fst acc), snd acc)
                               else acc) (folders st) ([], [])
      in (fst acc,
          fold (\<lambda>file fileIds. if trashed file \<and> id' file \<in> set sel
                               then set_add (id' file) fileIds else fileIds) (files st) (snd acc)))"

text \<open>
  The object \<^verbatim>\<open>{ ...f, trashed: false, parentId: parent, originalParentId: null }\<close> with
  \<^verbatim>\<open>parent = f.originalParentId ?? f.parentId ?? rootFolderId\<close>.
\<close>

definition restoreItem :: "int \<Rightarrow> 'a DriveFolder_scheme \<Rightarrow> 'a DriveFolder_scheme" where
  "restoreItem root f =
     f\<lparr>trashed := False,
       parentId := nullish (originalParentId f) (nullish (parentId f) (Some root)),
       originalParentId := None\<rparr>"

definition handleRestoreSelected :: "Browser \<Rightarrow> Browser" where
  "handleRestoreSelected b =
     (case state b of
        None \<Rightarrow> b
      | Some st \<Rightarrow>
          if selectedIds b = [] then b
          else
            (let ids = restoreSets st (selectedIds b);
                 folderIds = fst ids;
                 fileIds = snd ids;
                 st' = st\<lparr>folders := map (\<lambda>f. if id' f \<notin> set folderIds then f
                                              else restoreItem (rootFolderId st) f) (folders st),
                          files := map (\<lambda>f. if id' f \<notin> set fileIds then f
                                            else restoreItem (rootFolderId st) f) (files st)\<rparr>
             in b\<lparr>state := Some st', selectedIds := [], section' := MyDrive\<rparr>))"

subsection \<open>handlePermanentDeleteSelected and handleEmptyTrash\<close>

definition deleteSets :: "DriveState \<Rightarrow> int list \<Rightarrow> int list \<times> int list" where
  "deleteSets st sel =
     (let acc = fold (\<lambda>f acc. if id' f \<in> set sel then markFolderAndChildren st (id' f) acc else acc)
                  (folders st) ([], [])
      in (fst acc,
          fold (\<lambda>file filesToDelete. if id' file \<in> set sel
                                     then set_add (id' file) filesToDelete else filesToDelete)
            (files st) (snd acc)))"

definition handlePermanentDeleteSelected :: "bool \<Rightarrow> Browser \<Rightarrow> Browser" where
  "handlePermanentDeleteSelected confirmed b =
     (case state b of
        None \<Rightarrow> b
      | Some st \<Rightarrow>
          if selectedIds b = [] then b
          else if \<not> confirmed then b
          else
            (let ids = deleteSets st (selectedIds b);
                 foldersToDelete = fst ids;
                 filesToDelete = snd ids;
                 st' = st\<lparr>folders := filter (\<lambda>f. id' f \<notin> set foldersToDelete) (folders st),
                          files := filter (\<lambda>f. id' f \<notin> set filesToDelete) (files st)\<rparr>
             in b\<lparr>state := Some st', selectedIds := []\<rparr>))"

definition handleEmptyTrash :: "bool \<Rightarrow> Browser \<Rightarrow> Browser" where
  "handleEmptyTrash confirmed b =
     (case state b of
        None \<Rightarrow> b
      | Some st \<Rightarrow>
          if \<not> hasTrash b then b
          else if \<not> confirmed then b
          else
            (let st' = st\<lparr>folders := filter (\<lambda>f. \<not> trashed f) (folders st),
                          files := filter (\<lambda>f. \<not> trashed f) (files st)\<rparr>
             in b\<lparr>state := Some st', selectedIds := []\<rparr>))"

section \<open>The view (FileBrowser.tsx, visibleFolders and visibleFiles)\<close>

text \<open>
  \<^verbatim>\<open>String.prototype.toLowerCase\<close> is a table of Unicode and is not modelled: the
  view takes it as the parameter \<open>lower\<close>. \<^verbatim>\<open>trim\<close> strips the white space and the
  line terminators of ECMAScript from both ends; \<^verbatim>\<open>includes\<close> (written \<open>includes'\<close>)
  is the substring test.
\<close>

definition isWhiteSpace :: "nat \<Rightarrow> bool" where
  "isWhiteSpace c =
     (c \<in> set [0x9, 0xA, 0xB, 0xC, 0xD, 0x20, 0xA0, 0x1680, 0x2028, 0x2029, 0x202F, 0x205F,
               0x3000, 0xFEFF]
      \<or> (0x2000 \<le> c \<and> c \<le> 0x200A))"

definition trim :: "jsstring \<Rightarrow> jsstring" where
  "trim s = rev (dropWhile isWhiteSpace (rev (dropWhile isWhiteSpace s)))"

definition includes' :: "jsstring \<Rightarrow> jsstring \<Rightarrow> bool" where
  "includes' s q = list_ex (\<lambda>k. take (length q) (drop k s) = q) [0..<Suc (length s)]"

text \<open>
  \<^verbatim>\<open>Array.prototype.sort\<close> with a comparator. ECMAScript requires the sort to be
  stable, so for a comparator that is a consistent order the result is determined; it
  is modelled as the stable insertion sort, which puts an element before the first
  later element that the comparator does not rank below it. For a comparator that is
  not a consistent order ECMAScript leaves the result to the implementation;
  \<open>js_sort\<close> is then one possible result, and the theorems below state the order of
  a sorted list only where the comparator is a consistent order.
\<close>

fun insert_by :: "('a \<Rightarrow> 'a \<Rightarrow> int) \<Rightarrow> 'a \<Rightarrow> 'a list \<Rightarrow> 'a list" where
  "insert_by cmp x [] = [x]"
| "insert_by cmp x (y # ys) = (if cmp x y \<le> 0 then x # y # ys else y # insert_by cmp x ys)"

definition js_sort :: "('a \<Rightarrow> 'a \<Rightarrow> int) \<Rightarrow> 'a list \<Rightarrow> 'a list" where
  "js_sort cmp xs = foldr (insert_by cmp) xs []"

text \<open>
  The comparator of \<^verbatim>\<open>visibleFiles\<close>. \<open>getTime\<close> stands for
  \<^verbatim>\<open>new Date(s).getTime()\<close>: the time in milliseconds, or \<open>None\<close> for the \<^verbatim>\<open>NaN\<close>
  of a string that is not a date. \<open>lessNumber\<close> is \<^verbatim>\<open><\<close> on such numbers: a comparison
  with \<^verbatim>\<open>NaN\<close> is false.
\<close>

definition lessNumber :: "int option \<Rightarrow> int option \<Rightarrow> bool" where
  "lessNumber x y = (case x of None \<Rightarrow> False
                     | Some p \<Rightarrow> (case y of None \<Rightarrow> False | Some q \<Rightarrow> p < q))"

definition compareFiles :: "(jsstring \<Rightarrow> jsstring) \<Rightarrow> (jsstring \<Rightarrow> int option) \<Rightarrow> SortBy \<Rightarrow> SortDir
    \<Rightarrow> DriveFile \<Rightarrow> DriveFile \<Rightarrow> int" where
  "compareFiles lower getTime sb sd a b =
     (if sb = ByName then
        (let aStr = lower (name a); bStr = lower (name b)
         in if aStr < bStr then (if sd = Asc then - 1 else 1)
            else if aStr > bStr then (if sd = Asc then 1 else - 1)
            else 0)
      else
        (let aDate = getTime (modifiedAt a); bDate = getTime (modifiedAt b)
         in if lessNumber aDate bDate then (if sd = Asc then - 1 else 1)
            else if lessNumber bDate aDate then (if sd = Asc then 1 else - 1)
            else 0))"

definition visibleFolders :: "Browser \<Rightarrow> DriveFolder list" where
  "visibleFolders b =
     (if section' b = MyDrive
      then filter (\<lambda>f. \<not> trashed f \<and> parentId f = currentFolderId b) (foldersOf b)
      else if section' b = Trash then filter (\<lambda>f. trashed f) (foldersOf b)
      else [])"

definition visibleFiles :: "(jsstring \<Rightarrow> jsstring) \<Rightarrow> (jsstring \<Rightarrow> int option) \<Rightarrow> Browser
    \<Rightarrow> DriveFile list" where
  "visibleFiles lower getTime b =
     (let list0 =
            (if section' b = MyDrive
             then filter (\<lambda>f. \<not> trashed f \<and> parentId f = currentFolderId b) (filesOf b)
             else if section' b = Starred then filter (\<lambda>f. starred f \<and> \<not> trashed f) (filesOf b)
             else if section' b = Shared then filter (\<lambda>f. isShared f \<and> \<not> trashed f) (filesOf b)
             else filter (\<lambda>f. trashed f) (filesOf b));
          list1 =
            (if trim (search b) \<noteq> []
             then (let q = lower (trim (search b))
                   in filter (\<lambda>item. includes' (lower (name item)) q) list0)
             else list0)
      in js_sort (compareFiles lower getTime (sortBy b) (sortDir b)) list1)"

text \<open>
  What the grid and the list render, in order: the cards of \<^verbatim>\<open>visibleFolders\<close>, then
  the cards of \<^verbatim>\<open>visibleFiles\<close>.
\<close>

definition rendered :: "(jsstring \<Rightarrow> jsstring) \<Rightarrow> (jsstring \<Rightarrow> int option) \<Rightarrow> Browser
    \<Rightarrow> (DriveFolder + DriveFile) list" where
  "rendered lower getTime b =
     map Inl (visibleFolders b) @ map Inr (visibleFiles lower getTime b)"

section \<open>Folder upload (FileBrowser.tsx, handleFolderInputChange)\<close>

text \<open>
  \<^verbatim>\<open>s.split("/")\<close>: the pieces between the slashes, empty ones included;
  \<^verbatim>\<open>.filter(Boolean)\<close> then drops the empty pieces. \<^verbatim>\<open>join("/")\<close> puts one slash
  between the pieces.
\<close>

fun split_slash :: "jsstring \<Rightarrow> jsstring list" where
  "split_slash [] = [[]]"
| "split_slash (c # cs) =
     (if c = 0x2F then [] # split_slash cs
      else (case split_slash cs of [] \<Rightarrow> [[c]] | w # ws \<Rightarrow> (c # w) # ws))"

definition path_segments :: "jsstring \<Rightarrow> jsstring list" where
  "path_segments path = filter (\<lambda>s. s \<noteq> []) (split_slash path)"

fun join_slash :: "jsstring list \<Rightarrow> jsstring" where
  "join_slash [] = []"
| "join_slash [w] = w"
| "join_slash (w # ws) = w @ [0x2F] @ join_slash ws"

text \<open>
  An entry of the \<^verbatim>\<open>FileList\<close>: what the handler reads of a \<^verbatim>\<open>File\<close>.
\<close>

record UploadEntry =
  webkitRelativePath :: jsstring
  fileName :: jsstring

text \<open>
  The Sync Gateway is not part of the repository's frontend; the handler is given its
  two calls as functions over a gateway state \<open>'g\<close>. \<open>createFolder g name parentId\<close> is
  \<^verbatim>\<open>apiCreateFolder(token, { name, parentId })\<close> and \<open>uploadFile g name parentId\<close> is
  \<^verbatim>\<open>apiUploadFile(token, new File([file], name), parentId)\<close>: \<open>Inl\<close> the message of the
  error thrown, \<open>Inr\<close> the item the server answers with and the gateway afterwards.
\<close>

type_synonym 'g createFolderApi = "'g \<Rightarrow> jsstring \<Rightarrow> int \<Rightarrow> jsstring + (DriveFolder \<times> 'g)"
type_synonym 'g uploadFileApi = "'g \<Rightarrow> jsstring \<Rightarrow> int \<Rightarrow> jsstring + (DriveFile \<times> 'g)"

text \<open>
  The state a run of the handler threads: the gateway, the component state and the
  \<^verbatim>\<open>pathToFolderId\<close> map, which is created anew by every run of the handler.
\<close>

type_synonym 'g upload_state = "'g \<times> Browser \<times> (jsstring \<rightharpoonup> int)"

definition appendFolder :: "DriveFolder \<Rightarrow> Browser \<Rightarrow> Browser" where
  "appendFolder created b =
     (case state b of None \<Rightarrow> b
      | Some prev \<Rightarrow> b\<lparr>state := Some (prev\<lparr>folders := folders prev @ [created]\<rparr>)\<rparr>)"

definition appendFile :: "DriveFile \<Rightarrow> Browser \<Rightarrow> Browser" where
  "appendFile created b =
     (case state b of None \<Rightarrow> b
      | Some prev \<Rightarrow> b\<lparr>state := Some (prev\<lparr>files := files prev @ [created]\<rparr>)\<rparr>)"

text \<open>
  The loop \<^verbatim>\<open>for (const segment of segments)\<close> of \<^verbatim>\<open>ensureFolderPath\<close>, from the
  current \<^verbatim>\<open>currentPath\<close> and \<^verbatim>\<open>parentId\<close> (written \<open>parentId'\<close>). A throw of the gateway leaves the loop with
  the message and the state reached so far.
\<close>

fun ensureSegments :: "'g createFolderApi \<Rightarrow> jsstring list \<Rightarrow> jsstring \<Rightarrow> int \<Rightarrow> 'g upload_state
    \<Rightarrow> (jsstring \<times> 'g upload_state) + (int \<times> 'g upload_state)" where
  "ensureSegments createFolder [] currentPath parentId' \<sigma> = Inr (parentId', \<sigma>)"
| "ensureSegments createFolder (segment # rest) currentPath parentId' (g, b, pathToFolderId) =
     (let currentPath' = (if currentPath \<noteq> [] then currentPath @ [0x2F] @ segment else segment)
      in case pathToFolderId currentPath' of
           Some known \<Rightarrow> ensureSegments createFolder rest currentPath' known (g, b, pathToFolderId)
         | None \<Rightarrow>
             (case createFolder g segment parentId' of
                Inl msg \<Rightarrow> Inl (msg, (g, b, pathToFolderId))
              | Inr (created, g') \<Rightarrow>
                  ensureSegments createFolder rest currentPath' (id' created)
                    (g', appendFolder created b, pathToFolderId(currentPath' \<mapsto> id' created))))"

definition ensureFolderPath :: "'g createFolderApi \<Rightarrow> int \<Rightarrow> jsstring \<Rightarrow> 'g upload_state
    \<Rightarrow> (jsstring \<times> 'g upload_state) + (int \<times> 'g upload_state)" where
  "ensureFolderPath createFolder baseFolderId path \<sigma> =
     (case snd (snd \<sigma>) path of
        Some known \<Rightarrow> Inr (known, \<sigma>)
      | None \<Rightarrow> ensureSegments createFolder (path_segments path) [] baseFolderId \<sigma>)"

text \<open>
  The loop \<^verbatim>\<open>for (const file of fileList)\<close>. The result is the state reached and the
  message of the error that ended the loop, if one did.
\<close>

fun uploadEntries :: "'g createFolderApi \<Rightarrow> 'g uploadFileApi \<Rightarrow> int \<Rightarrow> UploadEntry list
    \<Rightarrow> 'g upload_state \<Rightarrow> 'g upload_state \<times> jsstring option" where
  "uploadEntries createFolder uploadFile baseFolderId [] \<sigma> = (\<sigma>, None)"
| "uploadEntries createFolder uploadFile baseFolderId (file # rest) \<sigma> =
     (let relPath = (if webkitRelativePath file \<noteq> [] then webkitRelativePath file else fileName file);
          segments = path_segments relPath;
          name' = (if segments \<noteq> [] \<and> last segments \<noteq> [] then last segments else fileName file);
          folderPath = join_slash (butlast segments)
      in case ensureFolderPath createFolder baseFolderId folderPath \<sigma> of
           Inl (msg, \<sigma>') \<Rightarrow> (\<sigma>', Some msg)
         | Inr (parentId', (g, b, pathToFolderId)) \<Rightarrow>
             (case uploadFile g name' parentId' of
                Inl msg \<Rightarrow> ((g, b, pathToFolderId), Some msg)
              | Inr (created, g') \<Rightarrow>
                  uploadEntries createFolder uploadFile baseFolderId rest
                    (g', appendFile created b, pathToFolderId)))"

text \<open>
  The handler: nothing happens on an empty list or before the state is loaded;
  \<^verbatim>\<open>baseFolderId\<close> is the current folder in my-drive and the root otherwise; the map
  starts as \<^verbatim>\<open>{"" -> baseFolderId}\<close>. The result is the gateway and the component
  state at the end, and the message alerted, if any.
\<close>

definition handleFolderInputChange :: "'g createFolderApi \<Rightarrow> 'g uploadFileApi \<Rightarrow> UploadEntry list
    \<Rightarrow> 'g \<Rightarrow> Browser \<Rightarrow> 'g \<times> Browser \<times> jsstring option" where
  "handleFolderInputChange createFolder uploadFile fileList g b =
     (case state b of
        None \<Rightarrow> (g, b, None)
      | Some st \<Rightarrow>
          if fileList = [] then (g, b, None)
          else
            (let baseFolderId =
                   (if section' b = MyDrive
                    then (case currentFolderId b of None \<Rightarrow> rootFolderId st | Some c \<Rightarrow> c)
                    else rootFolderId st);
                 r = uploadEntries createFolder uploadFile baseFolderId fileList
                       (g, b, [[] \<mapsto> baseFolderId])
             in (fst (fst r), fst (snd (fst r)), snd r)))"

section \<open>The closures the cascades compute\<close>

text \<open>
  What the three cascades are meant to collect, stated on the ids. \<open>cascade t st S\<close>
  is the least set of ids that holds \<open>S\<close> and, with a folder id, the id of every folder
  of the state whose \<^verbatim>\<open>parentId\<close> is that id and whose \<^verbatim>\<open>trashed\<close> is \<open>t\<close>;
  \<open>subtree st S\<close> is the same with no test on \<^verbatim>\<open>trashed\<close>. \<open>kids\<close>, \<open>fkids\<close>, \<open>akids\<close>
  and \<open>afkids\<close> are the child folders and child files of one folder id;
  \<open>selectedIn\<close> and \<open>selectedAll\<close> are the ids of the selected items. \<open>collectFrom\<close>,
  \<open>collect_post\<close> and \<open>mark_post\<close> only serve the proofs.
\<close>

inductive_set cascade :: "bool \<Rightarrow> DriveState \<Rightarrow> int set \<Rightarrow> int set"
  for t :: bool and st :: DriveState and S :: "int set" where
  start: "v \<in> S \<Longrightarrow> v \<in> cascade t st S"
| child: "p \<in> cascade t st S \<Longrightarrow> f \<in> set (folders st) \<Longrightarrow> trashed f = t \<Longrightarrow>
          parentId f = Some p \<Longrightarrow> id' f \<in> cascade t st S"

definition kids :: "bool \<Rightarrow> DriveState \<Rightarrow> int \<Rightarrow> int set" where
  "kids t st p = {id' f | f. f \<in> set (folders st) \<and> trashed f = t \<and> parentId f = Some p}"

definition fkids :: "bool \<Rightarrow> DriveState \<Rightarrow> int \<Rightarrow> int set" where
  "fkids t st p = {id' x | x. x \<in> set (files st) \<and> trashed x = t \<and> parentId x = Some p}"

definition collect_post :: "bool \<Rightarrow> DriveState \<Rightarrow> int \<Rightarrow> int list \<times> int list \<Rightarrow> int list \<times> int list \<Rightarrow> bool" where
  "collect_post t st v acc r \<longleftrightarrow>
     set (fst acc) \<subseteq> set (fst r)
     \<and> (\<forall>u \<in> set (fst r) - set (fst acc). kids t st u \<subseteq> set (fst r) \<and> u \<in> cascade t st {v})"

definition collectFrom :: "bool \<Rightarrow> DriveState \<Rightarrow> int list \<Rightarrow> int list \<times> int list \<Rightarrow> int list \<times> int list" where
  "collectFrom t st vs acc =
     fold (\<lambda>v acc. collectChildren t st v (set_add v (fst acc), snd acc)) vs acc"

definition selectedIn :: "bool \<Rightarrow> 'a DriveFolder_scheme list \<Rightarrow> int list \<Rightarrow> int set" where
  "selectedIn t xs sel = {id' x | x. x \<in> set xs \<and> trashed x = t \<and> id' x \<in> set sel}"

inductive_set subtree :: "DriveState \<Rightarrow> int set \<Rightarrow> int set"
  for st :: DriveState and S :: "int set" where
  start: "v \<in> S \<Longrightarrow> v \<in> subtree st S"
| child: "p \<in> subtree st S \<Longrightarrow> f \<in> set (folders st) \<Longrightarrow> parentId f = Some p \<Longrightarrow>
          id' f \<in> subtree st S"

definition akids :: "DriveState \<Rightarrow> int \<Rightarrow> int set" where
  "akids st p = {id' f | f. f \<in> set (folders st) \<and> parentId f = Some p}"

definition afkids :: "DriveState \<Rightarrow> int \<Rightarrow> int set" where
  "afkids st p = {id' x | x. x \<in> set (files st) \<and> parentId x = Some p}"

definition mark_post :: "DriveState \<Rightarrow> int \<Rightarrow> int list \<times> int list \<Rightarrow> int list \<times> int list \<Rightarrow> bool" where
  "mark_post st v acc r \<longleftrightarrow>
     set (fst acc) \<subseteq> set (fst r)
     \<and> (\<forall>u \<in> set (fst r) - set (fst acc). akids st u \<subseteq> set (fst r) \<and> u \<in> subtree st {v})
     \<and> set (snd r) = set (snd acc) \<union> (\<Union>u \<in> set (fst r) - set (fst acc). afkids st u)"

definition selectedAll :: "'a DriveFolder_scheme list \<Rightarrow> int list \<Rightarrow> int set" where
  "selectedAll xs sel = {id' x | x. x \<in> set xs \<and> id' x \<in> set sel}"

text \<open>
  The ids moveToTrash is to mark: the selected folders that are not trashed and,
  recursively, the folders under them that are not trashed; the selected files that
  are not trashed and the files, not trashed, directly in one of those folders.
  The ids permanentDelete is to remove: the selected folders and every folder under
  them, trashed or not; the selected files and the files directly in one of those
  folders.
\<close>

definition trashFolderClosure :: "DriveState \<Rightarrow> int list \<Rightarrow> int set" where
  "trashFolderClosure st sel = cascade False st (selectedIn False (folders st) sel)"

definition trashFileClosure :: "DriveState \<Rightarrow> int list \<Rightarrow> int set" where
  "trashFileClosure st sel =
     selectedIn False (files st) sel \<union> (\<Union>u \<in> trashFolderClosure st sel. fkids False st u)"

definition deletedFolderIds :: "DriveState \<Rightarrow> int list \<Rightarrow> int set" where
  "deletedFolderIds st sel = subtree st (selectedAll (folders st) sel)"

definition deletedFileIds :: "DriveState \<Rightarrow> int list \<Rightarrow> int set" where
  "deletedFileIds st sel =
     selectedAll (files st) sel \<union> (\<Union>u \<in> deletedFolderIds st sel. afkids st u)"

text \<open>
  The ids restore is to mark: the selected trashed folders and, recursively, the
  trashed folders under them; the selected trashed files and the trashed files
  directly in one of those folders.
\<close>

definition restoreFolderClosure :: "DriveState \<Rightarrow> int list \<Rightarrow> int set" where
  "restoreFolderClosure st sel = cascade True st (selectedIn True (folders st) sel)"

definition restoreFileClosure :: "DriveState \<Rightarrow> int list \<Rightarrow> int set" where
  "restoreFileClosure st sel =
     selectedIn True (files st) sel \<union> (\<Union>u \<in> restoreFolderClosure st sel. fkids True st u)"

text \<open>
  \<^verbatim>\<open>foldersToDelete\<close> and \<^verbatim>\<open>filesToDelete\<close> of handleEmptyTrash: the ids of the trashed
  folders and of the trashed files. \<open>trashed_closed_down\<close> says that every folder and
  file directly in a trashed folder is trashed; \<open>trashed_ids_apart\<close> says that no item
  that is not trashed has the id of a trashed folder or file.
\<close>

definition foldersToDelete :: "Browser \<Rightarrow> int list" where
  "foldersToDelete b = map id' (filter (\<lambda>f. trashed f) (foldersOf b))"

definition filesToDelete :: "Browser \<Rightarrow> int list" where
  "filesToDelete b = map id' (filter (\<lambda>f. trashed f) (filesOf b))"

definition trashed_closed_down :: "Browser \<Rightarrow> bool" where
  "trashed_closed_down b \<longleftrightarrow>
     (\<forall>f \<in> set (foldersOf b). trashed f \<longrightarrow>
        (\<forall>x \<in> set (foldersOf b). parentId x = Some (id' f) \<longrightarrow> trashed x)
        \<and> (\<forall>x \<in> set (filesOf b). parentId x = Some (id' f) \<longrightarrow> trashed x))"

definition trashed_ids_apart :: "Browser \<Rightarrow> bool" where
  "trashed_ids_apart b \<longleftrightarrow>
     (\<forall>f \<in> set (foldersOf b). id' f \<in> set (foldersToDelete b @ filesToDelete b) \<longrightarrow> trashed f)
     \<and> (\<forall>x \<in> set (filesOf b). id' x \<in> set (foldersToDelete b @ filesToDelete b) \<longrightarrow> trashed x)"

text \<open>
  moveToTrash of the one id \<open>F\<close> followed at once by restore of \<open>F\<close>: the selection is
  \<open>[F]\<close> for both handlers (moveToTrash empties it), and nothing else touches the
  state in between. \<open>stateAfterTrash\<close> is the state the first handler leaves;
  \<open>roundTripFolderIds\<close> and \<open>roundTripFileIds\<close> are the ids the restore then marks,
  the affected items.
\<close>

definition trashThenRestore :: "int \<Rightarrow> Browser \<Rightarrow> Browser" where
  "trashThenRestore F b =
     handleRestoreSelected
       ((handleMoveToTrashSelected True (b\<lparr>selectedIds := [F]\<rparr>))\<lparr>selectedIds := [F]\<rparr>)"

definition stateAfterTrash :: "DriveState \<Rightarrow> int list \<Rightarrow> DriveState" where
  "stateAfterTrash st sel =
     st\<lparr>folders := map (\<lambda>f. if id' f \<in> trashFolderClosure st sel then trashItem f else f) (folders st),
        files := map (\<lambda>x. if id' x \<in> trashFileClosure st sel then trashItem x else x) (files st)\<rparr>"

definition roundTripFolderIds :: "DriveState \<Rightarrow> int \<Rightarrow> int set" where
  "roundTripFolderIds st F = restoreFolderClosure (stateAfterTrash st [F]) [F]"

definition roundTripFileIds :: "DriveState \<Rightarrow> int \<Rightarrow> int set" where
  "roundTripFileIds st F = restoreFileClosure (stateAfterTrash st [F]) [F]"

text \<open>The state restore leaves, as \<open>stateAfterTrash\<close> is the state moveToTrash leaves.\<close>

definition stateAfterRestore :: "DriveState \<Rightarrow> int list \<Rightarrow> DriveState" where
  "stateAfterRestore st sel =
     st\<lparr>folders := map (\<lambda>f. if id' f \<in> restoreFolderClosure st sel
                             then restoreItem (rootFolderId st) f else f) (folders st),
        files := map (\<lambda>x. if id' x \<in> restoreFileClosure st sel
                           then restoreItem (rootFolderId st) x else x) (files st)\<rparr>"

text \<open>
  \<open>live_parents_ok\<close>: no folder or file that is not trashed has a trashed folder as the
  target of its \<^verbatim>\<open>parentId\<close>.
\<close>

definition live_parents_ok :: "DriveState \<Rightarrow> bool" where
  "live_parents_ok st \<longleftrightarrow>
     (\<forall>x \<in> set (folders st). \<not> trashed x \<longrightarrow>
        (\<forall>f \<in> set (folders st). parentId x = Some (id' f) \<longrightarrow> \<not> trashed f))
     \<and> (\<forall>x \<in> set (files st). \<not> trashed x \<longrightarrow>
        (\<forall>f \<in> set (folders st). parentId x = Some (id' f) \<longrightarrow> \<not> trashed f))"

text \<open>
  Sequences of moveToTrash and restore, each with its selection and with the
  confirmation given. \<open>lands_live st folderIds x\<close> says of an item \<open>x\<close> that the folder it
  goes back to on a restore, \<^verbatim>\<open>originalParentId ?? parentId ?? rootFolderId\<close>, is not
  trashed or has its id in \<open>folderIds\<close>. A moveToTrash is always admissible; a restore
  is admissible when every folder and file it restores (those with an id in the
  sets \<^verbatim>\<open>folderIds\<close> and \<^verbatim>\<open>fileIds\<close> the handler computes) goes back to a folder that
  is not trashed or is restored with it.
\<close>

datatype operation = MoveToTrash "int list" | Restore "int list"

fun apply_operation :: "operation \<Rightarrow> Browser \<Rightarrow> Browser" where
  "apply_operation (MoveToTrash sel) b = handleMoveToTrashSelected True (b\<lparr>selectedIds := sel\<rparr>)"
| "apply_operation (Restore sel) b = handleRestoreSelected (b\<lparr>selectedIds := sel\<rparr>)"

definition lands_live :: "DriveState \<Rightarrow> int list \<Rightarrow> 'a DriveFolder_scheme \<Rightarrow> bool" where
  "lands_live st folderIds x \<longleftrightarrow>
     (\<forall>f \<in> set (folders st). parentId (restoreItem (rootFolderId st) x) = Some (id' f) \<longrightarrow>
        \<not> trashed f \<or> id' f \<in> set folderIds)"

fun operation_ok :: "operation \<Rightarrow> Browser \<Rightarrow> bool" where
  "operation_ok (MoveToTrash sel) b = True"
| "operation_ok (Restore sel) b =
     (case state b of None \<Rightarrow> True
      | Some st \<Rightarrow>
          (let ids = restoreSets st sel
           in (\<forall>x \<in> set (folders st). id' x \<in> set (fst ids) \<longrightarrow> lands_live st (fst ids) x)
              \<and> (\<forall>x \<in> set (files st). id' x \<in> set (snd ids) \<longrightarrow> lands_live st (fst ids) x)))"

fun run :: "operation list \<Rightarrow> Browser \<Rightarrow> Browser" where
  "run [] b = b"
| "run (op # ops) b = run ops (apply_operation op b)"

fun run_ok :: "operation list \<Rightarrow> Browser \<Rightarrow> bool" where
  "run_ok [] b = True"
| "run_ok (op # ops) b = (operation_ok op b \<and> run_ok ops (apply_operation op b))"

section \<open>Concrete states\<close>

text \<open>
  The concrete inputs on which the theorems below are instantiated. \<open>mkFolder\<close> and
  \<open>mkFile\<close> build an item that is neither trashed, starred nor shared; \<open>mkBrowser\<close>
  is the component showing my-drive at folder 1, sorted by name, ascending, with
  nothing selected.
\<close>

definition mkFolder :: "int \<Rightarrow> string \<Rightarrow> int option \<Rightarrow> DriveFolder" where
  "mkFolder i n p =
     \<lparr>id' = i, name = js n, parentId = p, trashed = False, originalParentId = None\<rparr>"

definition mkFile :: "int \<Rightarrow> string \<Rightarrow> int option \<Rightarrow> DriveFile" where
  "mkFile i n p =
     \<lparr>id' = i, name = js n, parentId = p, trashed = False, originalParentId = None,
      type' = js ''text/plain'', ownerId = 1, sizeBytes = 0, starred = False, isShared = False,
      modifiedAt = js ''2024-01-01T00:00:00Z''\<rparr>"

definition mkBrowser :: "DriveFolder list \<Rightarrow> DriveFile list \<Rightarrow> Browser" where
  "mkBrowser fs xs =
     \<lparr>state = Some \<lparr>rootFolderId = 1, folders = fs, files = xs\<rparr>,
      section' = MyDrive, currentFolderId = Some 1, sortBy = ByName, sortDir = Asc,
      search = [], selectedIds = [], loading = False, error = None\<rparr>"

text \<open>
  \<^verbatim>\<open>toLowerCase\<close> on strings of ASCII characters, where it maps the letters A to Z to
  a to z and leaves every other character; it is used on the concrete inputs only.
\<close>

definition asciiLower :: "jsstring \<Rightarrow> jsstring" where
  "asciiLower s = map (\<lambda>c. if 0x41 \<le> c \<and> c \<le> 0x5A then c + 0x20 else c) s"

text \<open>
  The root folder alone, with the files named b, A and a, in this order; and with the
  files named b, a and A.
\<close>

definition browser_bAa :: Browser where
  "browser_bAa =
     mkBrowser [mkFolder 1 ''root'' None]
       [mkFile 1 ''b'' (Some 1), mkFile 2 ''A'' (Some 1), mkFile 3 ''a'' (Some 1)]"

definition browser_baA :: Browser where
  "browser_baA =
     mkBrowser [mkFolder 1 ''root'' None]
       [mkFile 1 ''b'' (Some 1), mkFile 2 ''a'' (Some 1), mkFile 3 ''A'' (Some 1)]"

text \<open>
  Three files modified in March, January and February 2024, in this order, shown
  sorted by \<^verbatim>\<open>modifiedAt\<close>; \<open>demoTime\<close> is \<^verbatim>\<open>new Date(s).getTime()\<close> on their three
  dates and \<^verbatim>\<open>NaN\<close> elsewhere. In \<open>browser_bad_date\<close> the second file has a
  \<^verbatim>\<open>modifiedAt\<close> that is not a date.
\<close>

definition demoTime :: "jsstring \<Rightarrow> int option" where
  "demoTime =
     map_of [(js ''2024-01-01T00:00:00Z'', 1704067200000),
             (js ''2024-02-01T00:00:00Z'', 1706745600000),
             (js ''2024-03-01T00:00:00Z'', 1709251200000)]"

definition browser_dates :: Browser where
  "browser_dates =
     (mkBrowser [mkFolder 1 ''root'' None]
        [(mkFile 1 ''mar'' (Some 1))\<lparr>modifiedAt := js ''2024-03-01T00:00:00Z''\<rparr>,
         (mkFile 2 ''jan'' (Some 1))\<lparr>modifiedAt := js ''2024-01-01T00:00:00Z''\<rparr>,
         (mkFile 3 ''feb'' (Some 1))\<lparr>modifiedAt := js ''2024-02-01T00:00:00Z''\<rparr>])
     \<lparr>sortBy := ByModifiedAt\<rparr>"

definition browser_bad_date :: Browser where
  "browser_bad_date =
     (mkBrowser [mkFolder 1 ''root'' None]
        [(mkFile 1 ''mar'' (Some 1))\<lparr>modifiedAt := js ''2024-03-01T00:00:00Z''\<rparr>,
         (mkFile 2 ''bad'' (Some 1))\<lparr>modifiedAt := js ''yesterday''\<rparr>,
         (mkFile 3 ''jan'' (Some 1))\<lparr>modifiedAt := js ''2024-01-01T00:00:00Z''\<rparr>])
     \<lparr>sortBy := ByModifiedAt\<rparr>"

text \<open>
  A gateway for the upload scenario: it numbers the items it creates from a counter
  and keeps the list of the requests it served.
\<close>

datatype request = CreateFolder jsstring int | UploadFile jsstring int

definition countingCreateFolder :: "(nat \<times> request list) createFolderApi" where
  "countingCreateFolder g n p =
     Inr ((mkFolder (int (fst g)) [] (Some p))\<lparr>name := n\<rparr>,
          (Suc (fst g), snd g @ [CreateFolder n p]))"

definition countingUploadFile :: "(nat \<times> request list) uploadFileApi" where
  "countingUploadFile g n p =
     Inr ((mkFile (int (fst g)) [] (Some p))\<lparr>name := n\<rparr>,
          (Suc (fst g), snd g @ [UploadFile n p]))"

text \<open>
  Two runs of the folder upload, one after the other, on the counting gateway: the
  first with project/notes/readme.txt, the second, from the gateway and the state the
  first leaves, with project/todo.txt.
\<close>

definition later_upload_example :: "(nat \<times> request list) \<times> Browser \<times> jsstring option" where
  "later_upload_example =
     (case handleFolderInputChange countingCreateFolder countingUploadFile
             [\<lparr>webkitRelativePath = js ''project/notes/readme.txt'',
               fileName = js ''readme.txt''\<rparr>] (10, []) browser_bAa of
        (g1, b1, e1) \<Rightarrow>
          handleFolderInputChange countingCreateFolder countingUploadFile
            [\<lparr>webkitRelativePath = js ''project/todo.txt'', fileName = js ''todo.txt''\<rparr>] g1 b1)"

text \<open>
  \<^verbatim>\<open>baseFolderId\<close> of handleFolderInputChange, named so that the scenario can speak
  of it.
\<close>

definition baseFolderOf :: "Browser \<Rightarrow> DriveState \<Rightarrow> int" where
  "baseFolderOf b st =
     (if section' b = MyDrive
      then (case currentFolderId b of None \<Rightarrow> rootFolderId st | Some c \<Rightarrow> c)
      else rootFolderId st)"

text \<open>Two folders under the root, named b and a, in this order.\<close>

definition browser_folders_ba :: Browser where
  "browser_folders_ba =
     mkBrowser [mkFolder 1 ''root'' None, mkFolder 2 ''b'' (Some 1), mkFolder 3 ''a'' (Some 1)] []"

text \<open>
  A drive with a folder Docs (2) holding a folder Sub (3), a trashed folder Old (4)
  and a file; file 11 in Sub already carries an \<^verbatim>\<open>originalParentId\<close>. Folder 2 and
  file 13 are selected.
\<close>

definition trash_example :: Browser where
  "trash_example =
     (mkBrowser
        [mkFolder 1 ''root'' None, mkFolder 2 ''Docs'' (Some 1), mkFolder 3 ''Sub'' (Some 2),
         (mkFolder 4 ''Old'' (Some 2))\<lparr>trashed := True, originalParentId := Some 2\<rparr>,
         mkFolder 5 ''Other'' (Some 1)]
        [mkFile 10 ''a.txt'' (Some 2),
         (mkFile 11 ''b.txt'' (Some 3))\<lparr>originalParentId := Some 7\<rparr>,
         (mkFile 12 ''c.txt'' (Some 4))\<lparr>trashed := True, originalParentId := Some 4\<rparr>,
         mkFile 13 ''d.txt'' (Some 5),
         mkFile 14 ''e.txt'' (Some 1)])\<lparr>selectedIds := [2, 13]\<rparr>"

text \<open>
  A folder Docs (2) with a folder Sub (3) and a file in it; and the state reached from
  it by moving Docs to the trash and then restoring Sub alone.
\<close>

definition family_example :: Browser where
  "family_example =
     mkBrowser [mkFolder 1 ''root'' None, mkFolder 2 ''Docs'' (Some 1), mkFolder 3 ''Sub'' (Some 2)]
       [mkFile 10 ''a.txt'' (Some 2)]"

definition orphan_example :: Browser where
  "orphan_example =
     handleRestoreSelected
       ((handleMoveToTrashSelected True (family_example\<lparr>selectedIds := [2]\<rparr>))\<lparr>selectedIds := [3]\<rparr>)"

text \<open>
  Folders Docs (2), T (3) and X (4), each in the one before, and a file in X; and the
  state reached from it by moving T to the trash and then restoring X and the file:
  X and the file are not trashed, T between them and Docs is.
\<close>

definition nested_example :: Browser where
  "nested_example =
     mkBrowser [mkFolder 1 ''root'' None, mkFolder 2 ''Docs'' (Some 1), mkFolder 3 ''T'' (Some 2),
                mkFolder 4 ''X'' (Some 3)]
       [mkFile 10 ''a.txt'' (Some 4)]"

definition behind_trashed_example :: Browser where
  "behind_trashed_example =
     handleRestoreSelected
       ((handleMoveToTrashSelected True (nested_example\<lparr>selectedIds := [3]\<rparr>))
        \<lparr>selectedIds := [4, 10]\<rparr>)"

text \<open>
  A trashed file whose \<^verbatim>\<open>parentId\<close> is the folder Docs (2), not trashed, and whose
  \<^verbatim>\<open>originalParentId\<close> is the trashed folder Old (3).
\<close>

definition stale_example :: Browser where
  "stale_example =
     mkBrowser [mkFolder 1 ''root'' None, mkFolder 2 ''Docs'' (Some 1),
                (mkFolder 3 ''Old'' (Some 1))\<lparr>trashed := True, originalParentId := Some 1\<rparr>]
       [(mkFile 10 ''a.txt'' (Some 2))\<lparr>trashed := True, originalParentId := Some 3\<rparr>]"

text \<open>
  A drive where a file at the top level (its \<^verbatim>\<open>parentId\<close> is null) has the id of the
  folder Docs; and a drive where Docs holds a live folder, a trashed folder with a
  trashed file in it and a live file, none with an \<^verbatim>\<open>originalParentId\<close>.
\<close>

definition namesake_example :: Browser where
  "namesake_example =
     mkBrowser [mkFolder 1 ''root'' None, mkFolder 2 ''Docs'' (Some 1)]
       [mkFile 2 ''note.txt'' None]"

definition roundtrip_example :: Browser where
  "roundtrip_example =
     mkBrowser
        [mkFolder 1 ''root'' None, mkFolder 2 ''Docs'' (Some 1), mkFolder 3 ''Sub'' (Some 2),
         (mkFolder 4 ''Old'' (Some 2))\<lparr>trashed := True\<rparr>]
        [mkFile 10 ''a.txt'' (Some 2), (mkFile 12 ''c.txt'' (Some 4))\<lparr>trashed := True\<rparr>,
         mkFile 13 ''d.txt'' (Some 1)]"

section \<open>Lemmas on the sort\<close>

lemma set_insert_by: "set (insert_by cmp x ys) = insert x (set ys)"
  by (induction ys) auto

lemma filter_insert_by:
  assumes "\<And>y. P x \<Longrightarrow> P y \<Longrightarrow> cmp x y \<le> 0"
  shows "filter P (insert_by cmp x ys) = (if P x then x # filter P ys else filter P ys)"
  using assms by (induction ys) auto

lemma filter_js_sort:
  assumes "\<And>x y. P x \<Longrightarrow> P y \<Longrightarrow> cmp x y \<le> 0"
  shows "filter P (js_sort cmp xs) = filter P xs"
  unfolding js_sort_def
  by (induction xs) (simp_all add: filter_insert_by assms)

lemma mset_insert_by: "mset (insert_by cmp x ys) = add_mset x (mset ys)"
  by (induction ys) auto

lemma mset_js_sort: "mset (js_sort cmp xs) = mset xs"
  unfolding js_sort_def by (induction xs) (simp_all add: mset_insert_by)

lemma set_js_sort: "set (js_sort cmp xs) = set xs"
  unfolding js_sort_def by (induction xs) (simp_all add: set_insert_by)

lemma sorted_insert_by:
  assumes tr: "\<And>x y z. x \<in> A \<Longrightarrow> y \<in> A \<Longrightarrow> z \<in> A \<Longrightarrow> cmp x y \<le> 0 \<Longrightarrow> cmp y z \<le> 0
                 \<Longrightarrow> cmp x z \<le> 0"
    and tot: "\<And>x y. x \<in> A \<Longrightarrow> y \<in> A \<Longrightarrow> \<not> cmp x y \<le> 0 \<Longrightarrow> cmp y x \<le> 0"
    and "x \<in> A" and "set ys \<subseteq> A"
    and "sorted_wrt (\<lambda>a b. cmp a b \<le> 0) ys"
  shows "sorted_wrt (\<lambda>a b. cmp a b \<le> 0) (insert_by cmp x ys)"
  using assms(4,5)
proof (induction ys)
  case Nil
  then show ?case by simp
next
  case (Cons y ys)
  have xA: "x \<in> A" by (rule assms(3))
  from Cons.prems have yA: "y \<in> A" and ysA: "set ys \<subseteq> A" by simp_all
  show ?case
  proof (cases "cmp x y \<le> 0")
    case True
    have "\<forall>z\<in>set ys. cmp x z \<le> 0"
    proof
      fix z assume z: "z \<in> set ys"
      with Cons.prems have "cmp y z \<le> 0" by simp
      with tr[OF xA yA _ True] z ysA show "cmp x z \<le> 0" by blast
    qed
    with True Cons.prems show ?thesis by simp
  next
    case False
    then have "cmp y x \<le> 0" using tot xA yA by blast
    with False Cons ysA show ?thesis by (auto simp: set_insert_by)
  qed
qed

lemma sorted_js_sort:
  assumes tr: "\<And>x y z. x \<in> A \<Longrightarrow> y \<in> A \<Longrightarrow> z \<in> A \<Longrightarrow> cmp x y \<le> 0 \<Longrightarrow> cmp y z \<le> 0
                 \<Longrightarrow> cmp x z \<le> 0"
    and tot: "\<And>x y. x \<in> A \<Longrightarrow> y \<in> A \<Longrightarrow> \<not> cmp x y \<le> 0 \<Longrightarrow> cmp y x \<le> 0"
    and "set xs \<subseteq> A"
  shows "sorted_wrt (\<lambda>a b. cmp a b \<le> 0) (js_sort cmp xs)"
  using assms(3)
proof (induction xs)
  case Nil
  then show ?case by (simp add: js_sort_def)
next
  case (Cons x xs)
  then have "sorted_wrt (\<lambda>a b. cmp a b \<le> 0) (js_sort cmp xs)" by simp
  moreover from Cons.prems have "x \<in> A" "set (js_sort cmp xs) \<subseteq> A"
    by (simp_all add: set_js_sort)
  ultimately have "sorted_wrt (\<lambda>a b. cmp a b \<le> 0) (insert_by cmp x (js_sort cmp xs))"
    using sorted_insert_by[of A cmp x "js_sort cmp xs"] tr tot by blast
  then show ?case by (simp add: js_sort_def)
qed

lemma compareFiles_name_le:
  "compareFiles lower g ByName sd a b \<le> 0 \<longleftrightarrow>
     (if sd = Asc then lower (name a) \<le> lower (name b) else lower (name b) \<le> lower (name a))"
  by (auto simp: compareFiles_def Let_def)

lemma compareFiles_time_le:
  assumes "g (modifiedAt a) \<noteq> None" and "g (modifiedAt b) \<noteq> None"
  shows "compareFiles lower g ByModifiedAt sd a b \<le> 0 \<longleftrightarrow>
     (if sd = Asc then the (g (modifiedAt a)) \<le> the (g (modifiedAt b))
      else the (g (modifiedAt b)) \<le> the (g (modifiedAt a)))"
  using assms by (auto simp: compareFiles_def Let_def lessNumber_def)

lemma sorted_by_name:
  "sorted_wrt (\<lambda>x y. if sd = Asc then lower (name x) \<le> lower (name y)
                       else lower (name y) \<le> lower (name x))
     (js_sort (compareFiles lower g ByName sd) xs)"
proof -
  have "sorted_wrt (\<lambda>a b. compareFiles lower g ByName sd a b \<le> 0)
          (js_sort (compareFiles lower g ByName sd) xs)"
    by (rule sorted_js_sort[where A = UNIV]) (auto simp: compareFiles_name_le split: if_splits)
  then show ?thesis by (simp add: compareFiles_name_le)
qed

lemma sorted_by_time:
  assumes "\<forall>x \<in> set xs. g (modifiedAt x) \<noteq> None"
  shows "sorted_wrt (\<lambda>x y. if sd = Asc then the (g (modifiedAt x)) \<le> the (g (modifiedAt y))
                       else the (g (modifiedAt y)) \<le> the (g (modifiedAt x)))
     (js_sort (compareFiles lower g ByModifiedAt sd) xs)"
proof -
  let ?A = "{x. g (modifiedAt x) \<noteq> None}"
  have sub: "set xs \<subseteq> ?A" using assms by auto
  have "sorted_wrt (\<lambda>a b. compareFiles lower g ByModifiedAt sd a b \<le> 0)
          (js_sort (compareFiles lower g ByModifiedAt sd) xs)"
    by (rule sorted_js_sort[where A = ?A, OF _ _ sub])
       (auto simp: compareFiles_time_le split: if_splits)
  then show ?thesis
    by (rule sorted_wrt_mono_rel[rotated])
       (use assms in \<open>auto simp: compareFiles_time_le set_js_sort\<close>)
qed

text \<open>
  The visible files are the sort of a list that does not depend on the sort
  settings.
\<close>

lemma visibleFiles_is_sort:
  "\<exists>xs. \<forall>sb sd. visibleFiles lower g (b\<lparr>sortBy := sb, sortDir := sd\<rparr>)
                  = js_sort (compareFiles lower g sb sd) xs"
  by (auto simp: visibleFiles_def Let_def filesOf_def)

lemma takeWhile_isl_Inr: "takeWhile isl (map Inr xs) = []"
  by (cases xs) simp_all

lemma dropWhile_isl_Inr: "dropWhile isl (map Inr xs) = map Inr xs"
  by (cases xs) simp_all

lemma takeWhile_isl_rendered: "takeWhile isl (map Inl fs @ map Inr xs) = map Inl fs"
  by (induction fs) (simp_all add: takeWhile_isl_Inr)

lemma dropWhile_isl_rendered: "dropWhile isl (map Inl fs @ map Inr xs) = map Inr xs"
  by (induction fs) (simp_all add: dropWhile_isl_Inr)

section \<open>Lemmas on the upload paths\<close>

lemma segments_readme:
  "path_segments (js ''project/notes/readme.txt'') = [js ''project'', js ''notes'', js ''readme.txt'']"
  by (simp add: path_segments_def js_def)

lemma segments_todo: "path_segments (js ''project/todo.txt'') = [js ''project'', js ''todo.txt'']"
  by (simp add: path_segments_def js_def)

lemma segments_notes:
  "path_segments (js ''project'' @ 0x2F # js ''notes'') = [js ''project'', js ''notes'']"
  by (simp add: path_segments_def js_def)

lemma segments_project: "path_segments (js ''project'') = [js ''project'']"
  by (simp add: path_segments_def js_def)

lemma js_nonempty: "js (c # cs) \<noteq> []"
  by (simp add: js_def)

lemma map_same_after:
  "(\<And>f. h (g f) = h f) \<Longrightarrow> map h (map g fs) = map h fs"
  by (induction fs) auto

section \<open>Lemmas on the cascades\<close>

lemma set_set_add [simp]: "set (set_add x xs) = insert x (set xs)"
  by (auto simp: set_add_def)

lemma set_fold_set_add:
  "set (fold (\<lambda>x acc. if P x then set_add (h x) acc else acc) xs ys) = set ys \<union> {h x | x. x \<in> set xs \<and> P x}"
  by (induction xs arbitrary: ys) auto

lemma set_collectFiles: "set (collectFiles t st v fi) = set fi \<union> fkids t st v"
  unfolding collectFiles_def fkids_def by (subst set_fold_set_add) auto

lemma cascade_trans: "u \<in> cascade t st {w} \<Longrightarrow> w \<in> cascade t st S \<Longrightarrow> u \<in> cascade t st S"
  by (induction rule: cascade.induct) (auto intro: cascade.intros)

lemma cascade_kid: "f \<in> set (folders st) \<Longrightarrow> trashed f = t \<Longrightarrow> parentId f = Some v \<Longrightarrow> id' f \<in> cascade t st {v}"
  by (rule cascade.child[of v]) (auto intro: cascade.start)

lemma collect_correct:
  "collect_post t st v acc (collectChildren t st v acc)
     \<and> kids t st v \<subseteq> set (fst (collectChildren t st v acc))
     \<and> set (snd (collectChildren t st v acc)) = set (snd acc) \<union> fkids t st v \<union> 
         (\<Union>u \<in> set (fst (collectChildren t st v acc)) - set (fst acc). fkids t st u)"
  "set fs \<subseteq> set (folders st) \<Longrightarrow>
     collect_post t st v acc (collectFolders t st v fs acc)
     \<and> (\<forall>f \<in> set fs. trashed f = t \<and> parentId f = Some v \<longrightarrow> id' f \<in> set (fst (collectFolders t st v fs acc)))
     \<and> set (snd (collectFolders t st v fs acc)) = set (snd acc) \<union>
         (\<Union>u \<in> set (fst (collectFolders t st v fs acc)) - set (fst acc). fkids t st u)"
proof (induction t st v acc and t st v fs acc rule: collectChildren_collectFolders.induct)
  case (1 t st folderId acc)
  have ih: "collect_post t st folderId acc (collectFolders t st folderId (folders st) acc)
     \<and> (\<forall>f \<in> set (folders st). trashed f = t \<and> parentId f = Some folderId \<longrightarrow> id' f \<in> set (fst (collectFolders t st folderId (folders st) acc)))
     \<and> set (snd (collectFolders t st folderId (folders st) acc)) = set (snd acc) \<union>
         (\<Union>u \<in> set (fst (collectFolders t st folderId (folders st) acc)) - set (fst acc). fkids t st u)"
    using 1 by simp
  show ?case using ih
    by (auto simp: collectChildren.simps Let_def collect_post_def set_collectFiles kids_def)
next
  case (2 t st folderId acc)
  show ?case by (simp add: collect_post_def)
next
  case (3 t st folderId f fs acc)
  let ?cond = "trashed f = t \<and> parentId f = Some folderId \<and> id' f \<notin> set (fst acc)"
  have fin: "f \<in> set (folders st)" and sub: "set fs \<subseteq> set (folders st)" using 3(4) by auto
  show ?case
  proof (cases ?cond)
    case True
    let ?acc1 = "(set_add (id' f) (fst acc), snd acc)"
    let ?r2 = "collectChildren t st (id' f) ?acc1"
    let ?r3 = "collectFolders t st folderId fs ?r2"
    have p2: "collect_post t st (id' f) ?acc1 ?r2" and k2: "kids t st (id' f) \<subseteq> set (fst ?r2)"
      and f2: "set (snd ?r2) = set (snd ?acc1) \<union> fkids t st (id' f) \<union> 
         (\<Union>u \<in> set (fst ?r2) - set (fst ?acc1). fkids t st u)"
      using 3(1)[OF True] by auto
    have p3: "collect_post t st folderId ?r2 ?r3"
      and m3: "\<forall>g \<in> set fs. trashed g = t \<and> parentId g = Some folderId \<longrightarrow> id' g \<in> set (fst ?r3)"
      and f3: "set (snd ?r3) = set (snd ?r2) \<union> (\<Union>u \<in> set (fst ?r3) - set (fst ?r2). fkids t st u)"
      using 3(2)[OF True sub] by auto
    have res: "collectFolders t st folderId (f # fs) acc = ?r3"
      by (simp only: collectFolders.simps if_P[OF True])
    have kid: "id' f \<in> cascade t st {folderId}" using True fin by (auto intro: cascade_kid)
    have new: "set (fst ?r3) - set (fst acc) = insert (id' f) ((set (fst ?r2) - set (fst ?acc1)) \<union> (set (fst ?r3) - set (fst ?r2)))"
      using p2 p3 True by (auto simp: collect_post_def)
    have a: "set (fst acc) \<subseteq> set (fst ?r3)" using p2 p3 by (auto simp: collect_post_def)
    have c: "\<forall>u \<in> set (fst ?r3) - set (fst acc). kids t st u \<subseteq> set (fst ?r3) \<and> u \<in> cascade t st {folderId}"
    proof
      fix u assume "u \<in> set (fst ?r3) - set (fst acc)"
      then consider "u = id' f" | "u \<in> set (fst ?r2) - set (fst ?acc1)" | "u \<in> set (fst ?r3) - set (fst ?r2)"
        unfolding new by auto
      then show "kids t st u \<subseteq> set (fst ?r3) \<and> u \<in> cascade t st {folderId}"
      proof cases
        case 1
        then show ?thesis using k2 p3 kid by (auto simp: collect_post_def)
      next
        case 2
        then have "kids t st u \<subseteq> set (fst ?r2)" "u \<in> cascade t st {id' f}"
          using p2 by (auto simp: collect_post_def)
        then show ?thesis using p3 kid cascade_trans by (auto simp: collect_post_def)
      next
        case 3
        then show ?thesis using p3 by (auto simp: collect_post_def)
      qed
    qed
    have fl: "set (snd ?r3) = set (snd acc) \<union> (\<Union>u \<in> set (fst ?r3) - set (fst acc). fkids t st u)"
    proof -
      show ?thesis unfolding f3 new f2 by auto
    qed
    have m: "\<forall>g \<in> set (f # fs). trashed g = t \<and> parentId g = Some folderId \<longrightarrow> id' g \<in> set (fst ?r3)"
      using m3 p2 p3 by (auto simp: collect_post_def)
    show ?thesis unfolding res using a c fl m by (simp add: collect_post_def)
  next
    case False
    have res: "collectFolders t st folderId (f # fs) acc = collectFolders t st folderId fs acc"
      by (simp only: collectFolders.simps if_not_P[OF False])
    have ih: "collect_post t st folderId acc (collectFolders t st folderId fs acc)
     \<and> (\<forall>g \<in> set fs. trashed g = t \<and> parentId g = Some folderId \<longrightarrow> id' g \<in> set (fst (collectFolders t st folderId fs acc)))
     \<and> set (snd (collectFolders t st folderId fs acc)) = set (snd acc) \<union>
         (\<Union>u \<in> set (fst (collectFolders t st folderId fs acc)) - set (fst acc). fkids t st u)"
      using 3(3)[OF False sub] .
    show ?thesis unfolding res using ih False by (auto simp: collect_post_def)
  qed
qed

lemma collect_mono: "set (fst acc) \<subseteq> set (fst (collectChildren t st v acc))"
  using collect_correct(1)[of t st v acc] by (simp add: collect_post_def)

lemma fold_filter_map:
  "fold (\<lambda>x acc. if P x then g (h x) acc else acc) xs acc = fold g (map h (filter P xs)) acc"
  by (induction xs arbitrary: acc) auto

lemma collectFrom_post:
  "set (fst acc) \<union> set vs \<subseteq> set (fst (collectFrom t st vs acc))
   \<and> (\<forall>u \<in> set vs \<union> (set (fst (collectFrom t st vs acc)) - set (fst acc)).
         kids t st u \<subseteq> set (fst (collectFrom t st vs acc)))
   \<and> (\<forall>u \<in> set (fst (collectFrom t st vs acc)) - set (fst acc). u \<in> cascade t st (set vs))
   \<and> set (snd (collectFrom t st vs acc)) = set (snd acc) \<union>
        (\<Union>u \<in> set vs \<union> (set (fst (collectFrom t st vs acc)) - set (fst acc)). fkids t st u)"
proof (induction vs arbitrary: acc)
  case Nil
  show ?case by (simp add: collectFrom_def)
next
  case (Cons v vs)
  let ?acc1 = "(set_add v (fst acc), snd acc)"
  let ?r2 = "collectChildren t st v ?acc1"
  let ?r = "collectFrom t st vs ?r2"
  have res: "collectFrom t st (v # vs) acc = ?r" by (simp add: collectFrom_def)
  note c = collect_correct(1)[of t st v ?acc1, unfolded collect_post_def]
  note ih = Cons.IH[of ?r2]
  have mono2: "insert v (set (fst acc)) \<subseteq> set (fst ?r2)" using c by simp
  have mono3: "set (fst ?r2) \<subseteq> set (fst ?r)" using ih by simp
  have new: "set (fst ?r) - set (fst acc) \<subseteq>
      insert v ((set (fst ?r2) - set (fst ?acc1)) \<union> (set (fst ?r) - set (fst ?r2)))"
    by auto
  have casc_v: "\<And>u. u \<in> cascade t st {v} \<Longrightarrow> u \<in> cascade t st (set (v # vs))"
    by (rule cascade_trans[of _ t st v]) (auto intro: cascade.start)
  have casc_vs: "\<And>u. u \<in> cascade t st (set vs) \<Longrightarrow> u \<in> cascade t st (set (v # vs))"
  proof -
    fix u assume "u \<in> cascade t st (set vs)"
    then show "u \<in> cascade t st (set (v # vs))"
      by (induction rule: cascade.induct) (auto intro: cascade.intros)
  qed
  have a: "set (fst acc) \<union> set (v # vs) \<subseteq> set (fst ?r)"
    using mono2 mono3 ih by auto
  have k: "\<forall>u \<in> set (v # vs) \<union> (set (fst ?r) - set (fst acc)). kids t st u \<subseteq> set (fst ?r)"
  proof
    fix u assume u: "u \<in> set (v # vs) \<union> (set (fst ?r) - set (fst acc))"
    then consider "u = v" | "u \<in> set (fst ?r2) - set (fst ?acc1)"
      | "u \<in> set vs \<union> (set (fst ?r) - set (fst ?r2))"
      using new by auto
    then show "kids t st u \<subseteq> set (fst ?r)"
    proof cases
      case 1 then show ?thesis using c mono3 by auto
    next
      case 2 then show ?thesis using c mono3 by blast
    next
      case 3 then show ?thesis using ih by blast
    qed
  qed
  have s: "\<forall>u \<in> set (fst ?r) - set (fst acc). u \<in> cascade t st (set (v # vs))"
  proof
    fix u assume u: "u \<in> set (fst ?r) - set (fst acc)"
    then consider "u = v" | "u \<in> set (fst ?r2) - set (fst ?acc1)" | "u \<in> set (fst ?r) - set (fst ?r2)"
      using new by auto
    then show "u \<in> cascade t st (set (v # vs))"
    proof cases
      case 1 then show ?thesis by (auto intro: cascade.start)
    next
      case 2 then show ?thesis using c casc_v by blast
    next
      case 3 then show ?thesis using ih casc_vs by blast
    qed
  qed
  have f: "set (snd ?r) = set (snd acc) \<union>
        (\<Union>u \<in> set (v # vs) \<union> (set (fst ?r) - set (fst acc)). fkids t st u)"
  proof -
    have f3: "set (snd ?r) = set (snd ?r2) \<union>
        (\<Union>u \<in> set vs \<union> (set (fst ?r) - set (fst ?r2)). fkids t st u)"
      using ih by blast
    have f2: "set (snd ?r2) = set (snd acc) \<union> fkids t st v \<union>
         (\<Union>u \<in> set (fst ?r2) - set (fst ?acc1). fkids t st u)"
      using c by simp
    have eq: "insert v (set vs \<union> (set (fst ?r) - set (fst acc)))
        = insert v ((set (fst ?r2) - set (fst ?acc1)) \<union> (set vs \<union> (set (fst ?r) - set (fst ?r2))))"
      using mono2 mono3 by auto
    have "set (v # vs) \<union> (set (fst ?r) - set (fst acc))
        = insert v ((set (fst ?r2) - set (fst ?acc1)) \<union> (set vs \<union> (set (fst ?r) - set (fst ?r2))))"
      using eq by simp
    then show ?thesis unfolding f3 f2 by auto
  qed
  show ?case unfolding res using a k s f by blast
qed

lemma collectFrom_cascade:
  assumes "set (fst acc) \<subseteq> set vs"
  shows "set (fst (collectFrom t st vs acc)) = cascade t st (set vs)"
    and "set (snd (collectFrom t st vs acc)) = set (snd acc) \<union> (\<Union>u \<in> cascade t st (set vs). fkids t st u)"
proof -
  let ?r = "collectFrom t st vs acc"
  note p = collectFrom_post[of acc vs t st]
  have sub: "set (fst ?r) \<subseteq> cascade t st (set vs)"
  proof
    fix u assume "u \<in> set (fst ?r)"
    then show "u \<in> cascade t st (set vs)"
      using p assms by (cases "u \<in> set (fst acc)") (auto intro: cascade.start)
  qed
  have sup: "cascade t st (set vs) \<subseteq> set (fst ?r)"
  proof
    fix u assume "u \<in> cascade t st (set vs)"
    then show "u \<in> set (fst ?r)"
    proof (induction rule: cascade.induct)
      case (start v)
      then show ?case using p by auto
    next
      case (child q f)
      have "q \<in> set vs \<union> (set (fst ?r) - set (fst acc))" using child.IH assms by auto
      then have "kids t st q \<subseteq> set (fst ?r)" using p by blast
      moreover have "id' f \<in> kids t st q" using child.hyps by (auto simp: kids_def)
      ultimately show ?case by auto
    qed
  qed
  show eq: "set (fst ?r) = cascade t st (set vs)" using sub sup by auto
  have "set vs \<union> (set (fst ?r) - set (fst acc)) = cascade t st (set vs)"
    using eq assms p by auto
  then show "set (snd ?r) = set (snd acc) \<union> (\<Union>u \<in> cascade t st (set vs). fkids t st u)"
    using p by simp
qed

lemma fold_collect_no_add:
  "set vs \<subseteq> set (fst acc) \<Longrightarrow> fold (collectChildren t st) vs acc = collectFrom t st vs acc"
proof (induction vs arbitrary: acc)
  case Nil
  show ?case by (simp add: collectFrom_def)
next
  case (Cons v vs)
  have "set_add v (fst acc) = fst acc" using Cons.prems by (simp add: set_add_def)
  then have e: "collectChildren t st v (set_add v (fst acc), snd acc) = collectChildren t st v acc"
    by simp
  have "set vs \<subseteq> set (fst (collectChildren t st v acc))"
    using Cons.prems collect_mono[of acc t st v] by auto
  from Cons.IH[OF this] show ?case using e by (simp add: collectFrom_def)
qed

lemma trashSets_sets:
  "set (fst (trashSets st sel)) = cascade False st (selectedIn False (folders st) sel)"
  "set (snd (trashSets st sel)) = selectedIn False (files st) sel \<union>
     (\<Union>u \<in> cascade False st (selectedIn False (folders st) sel). fkids False st u)"
proof -
  let ?init = "trashSelected st sel"
  have f0: "set (fst ?init) = selectedIn False (folders st) sel"
    unfolding trashSelected_def selectedIn_def fst_conv by (subst set_fold_set_add) auto
  have x0: "set (snd ?init) = selectedIn False (files st) sel"
    unfolding trashSelected_def selectedIn_def snd_conv by (subst set_fold_set_add) auto
  have e: "trashSets st sel = collectFrom False st (fst ?init) ?init"
    unfolding trashSets_def Let_def by (rule fold_collect_no_add) simp
  show "set (fst (trashSets st sel)) = cascade False st (selectedIn False (folders st) sel)"
    unfolding e using collectFrom_cascade(1)[of ?init "fst ?init" False st] f0 by simp
  show "set (snd (trashSets st sel)) = selectedIn False (files st) sel \<union>
     (\<Union>u \<in> cascade False st (selectedIn False (folders st) sel). fkids False st u)"
    unfolding e using collectFrom_cascade(2)[of ?init "fst ?init" False st] f0 x0 by simp
qed

lemma restoreSets_sets:
  "set (fst (restoreSets st sel)) = cascade True st (selectedIn True (folders st) sel)"
  "set (snd (restoreSets st sel)) = selectedIn True (files st) sel \<union>
     (\<Union>u \<in> cascade True st (selectedIn True (folders st) sel). fkids True st u)"
proof -
  let ?vs = "map id' (filter (\<lambda>f. trashed f \<and> id' f \<in> set sel) (folders st))"
  let ?acc = "collectFrom True st ?vs ([], [])"
  have vs: "set ?vs = selectedIn True (folders st) sel" by (auto simp: selectedIn_def)
  have e: "fold (\<lambda>f acc. if trashed f \<and> id' f \<in> set sel
                               then collectChildren True st (id' f) (set_add (id' f) (fst acc), snd acc)
                               else acc) (folders st) ([], []) = ?acc"
    unfolding collectFrom_def
    by (rule fold_filter_map[of "\<lambda>f. trashed f \<and> id' f \<in> set sel"
          "\<lambda>v acc. collectChildren True st v (set_add v (fst acc), snd acc)" id'])
  have r: "restoreSets st sel = (fst ?acc,
          fold (\<lambda>file fileIds. if trashed file \<and> id' file \<in> set sel
                               then set_add (id' file) fileIds else fileIds) (files st) (snd ?acc))"
    unfolding restoreSets_def Let_def e ..
  show "set (fst (restoreSets st sel)) = cascade True st (selectedIn True (folders st) sel)"
    unfolding r fst_conv using collectFrom_cascade(1)[of "([], [])" ?vs True st] vs by simp
  have "set (snd (restoreSets st sel)) = set (snd ?acc) \<union> selectedIn True (files st) sel"
    unfolding r snd_conv selectedIn_def by (subst set_fold_set_add) auto
  then show "set (snd (restoreSets st sel)) = selectedIn True (files st) sel \<union>
     (\<Union>u \<in> cascade True st (selectedIn True (folders st) sel). fkids True st u)"
    using collectFrom_cascade(2)[of "([], [])" ?vs True st] vs by auto
qed

lemma set_markFiles: "set (markFiles st v fi) = set fi \<union> afkids st v"
  unfolding markFiles_def afkids_def by (subst set_fold_set_add) auto

lemma subtree_trans: "u \<in> subtree st {w} \<Longrightarrow> w \<in> subtree st S \<Longrightarrow> u \<in> subtree st S"
  by (induction rule: subtree.induct) (auto intro: subtree.intros)

lemma subtree_mono: "u \<in> subtree st S \<Longrightarrow> S \<subseteq> S' \<Longrightarrow> u \<in> subtree st S'"
  by (induction rule: subtree.induct) (auto intro: subtree.intros)

lemma subtree_kid: "f \<in> set (folders st) \<Longrightarrow> parentId f = Some v \<Longrightarrow> id' f \<in> subtree st {v}"
  by (rule subtree.child[of v]) (auto intro: subtree.start)

lemma mark_correct:
  "mark_post st v acc (markFolderAndChildren st v acc)
     \<and> v \<in> set (fst (markFolderAndChildren st v acc))"
  "set fs \<subseteq> set (folders st) \<Longrightarrow>
     mark_post st v acc (markFolders st v fs acc)
     \<and> (\<forall>f \<in> set fs. parentId f = Some v \<longrightarrow> id' f \<in> set (fst (markFolders st v fs acc)))"
proof (induction st v acc and st v fs acc rule: markFolderAndChildren_markFolders.induct)
  case (1 st folderId acc)
  show ?case
  proof (cases "folderId \<in> set (fst acc)")
    case True
    then show ?thesis by (simp add: markFolderAndChildren.simps mark_post_def)
  next
    case False
    let ?acc1 = "(set_add folderId (fst acc), snd acc)"
    let ?r' = "markFolders st folderId (folders st) ?acc1"
    have ih: "mark_post st folderId ?acc1 ?r'"
      and m: "\<forall>f \<in> set (folders st). parentId f = Some folderId \<longrightarrow> id' f \<in> set (fst ?r')"
      using 1[OF False] by auto
    have res: "markFolderAndChildren st folderId acc = (fst ?r', markFiles st folderId (snd ?r'))"
      using False by (simp add: markFolderAndChildren.simps Let_def)
    have new: "set (fst ?r') - set (fst acc) = insert folderId (set (fst ?r') - set (fst ?acc1))"
      using ih False by (auto simp: mark_post_def)
    have k: "akids st folderId \<subseteq> set (fst ?r')" using m by (auto simp: akids_def)
    show ?thesis unfolding res fst_conv snd_conv mark_post_def new set_markFiles
      using ih k by (auto simp: mark_post_def intro: subtree.start)
  qed
next
  case (2 st folderId acc)
  show ?case by (simp add: mark_post_def)
next
  case (3 st folderId f fs acc)
  have fin: "f \<in> set (folders st)" and sub: "set fs \<subseteq> set (folders st)" using 3(4) by auto
  show ?case
  proof (cases "parentId f = Some folderId")
    case True
    let ?r2 = "markFolderAndChildren st (id' f) acc"
    let ?r3 = "markFolders st folderId fs ?r2"
    have p2: "mark_post st (id' f) acc ?r2" and in2: "id' f \<in> set (fst ?r2)"
      using 3(1)[OF True] by auto
    have p3: "mark_post st folderId ?r2 ?r3"
      and m3: "\<forall>g \<in> set fs. parentId g = Some folderId \<longrightarrow> id' g \<in> set (fst ?r3)"
      using 3(2)[OF True sub] by auto
    have res: "markFolders st folderId (f # fs) acc = ?r3"
      by (simp only: markFolders.simps if_P[OF True])
    have kid: "id' f \<in> subtree st {folderId}" by (rule subtree_kid[OF fin True])
    have new: "set (fst ?r3) - set (fst acc) = (set (fst ?r2) - set (fst acc)) \<union> (set (fst ?r3) - set (fst ?r2))"
      using p2 p3 by (auto simp: mark_post_def)
    have a: "set (fst acc) \<subseteq> set (fst ?r3)" using p2 p3 by (auto simp: mark_post_def)
    have c: "\<forall>u \<in> set (fst ?r3) - set (fst acc). akids st u \<subseteq> set (fst ?r3) \<and> u \<in> subtree st {folderId}"
    proof
      fix u assume "u \<in> set (fst ?r3) - set (fst acc)"
      then consider "u \<in> set (fst ?r2) - set (fst acc)" | "u \<in> set (fst ?r3) - set (fst ?r2)"
        unfolding new by auto
      then show "akids st u \<subseteq> set (fst ?r3) \<and> u \<in> subtree st {folderId}"
      proof cases
        case 1
        then have "akids st u \<subseteq> set (fst ?r2)" "u \<in> subtree st {id' f}"
          using p2 by (auto simp: mark_post_def)
        then show ?thesis using p3 kid subtree_trans by (auto simp: mark_post_def)
      next
        case 2
        then show ?thesis using p3 by (auto simp: mark_post_def)
      qed
    qed
    have fl: "set (snd ?r3) = set (snd acc) \<union> (\<Union>u \<in> set (fst ?r3) - set (fst acc). afkids st u)"
    proof -
      have f3: "set (snd ?r3) = set (snd ?r2) \<union> (\<Union>u \<in> set (fst ?r3) - set (fst ?r2). afkids st u)"
        using p3 by (simp add: mark_post_def)
      have f2: "set (snd ?r2) = set (snd acc) \<union> (\<Union>u \<in> set (fst ?r2) - set (fst acc). afkids st u)"
        using p2 by (simp add: mark_post_def)
      show ?thesis unfolding f3 f2 new by auto
    qed
    have m: "\<forall>g \<in> set (f # fs). parentId g = Some folderId \<longrightarrow> id' g \<in> set (fst ?r3)"
      using m3 in2 p3 by (auto simp: mark_post_def)
    show ?thesis unfolding res using a c fl m by (simp add: mark_post_def)
  next
    case False
    have res: "markFolders st folderId (f # fs) acc = markFolders st folderId fs acc"
      by (simp only: markFolders.simps if_not_P[OF False])
    have ih: "mark_post st folderId acc (markFolders st folderId fs acc)
     \<and> (\<forall>g \<in> set fs. parentId g = Some folderId \<longrightarrow> id' g \<in> set (fst (markFolders st folderId fs acc)))"
      using 3(3)[OF False sub] .
    show ?thesis unfolding res using ih False by (auto simp: mark_post_def)
  qed
qed

lemma markFrom_post:
  "set (fst acc) \<union> set vs \<subseteq> set (fst (fold (markFolderAndChildren st) vs acc))
   \<and> (\<forall>u \<in> set (fst (fold (markFolderAndChildren st) vs acc)) - set (fst acc).
         akids st u \<subseteq> set (fst (fold (markFolderAndChildren st) vs acc)) \<and> u \<in> subtree st (set vs))
   \<and> set (snd (fold (markFolderAndChildren st) vs acc)) = set (snd acc) \<union>
        (\<Union>u \<in> set (fst (fold (markFolderAndChildren st) vs acc)) - set (fst acc). afkids st u)"
proof (induction vs arbitrary: acc)
  case Nil
  show ?case by simp
next
  case (Cons v vs)
  let ?r2 = "markFolderAndChildren st v acc"
  let ?r = "fold (markFolderAndChildren st) vs ?r2"
  have res: "fold (markFolderAndChildren st) (v # vs) acc = ?r" by simp
  note c = mark_correct(1)[of st v acc, unfolded mark_post_def]
  note ih = Cons.IH[of ?r2]
  have new: "set (fst ?r) - set (fst acc) = (set (fst ?r2) - set (fst acc)) \<union> (set (fst ?r) - set (fst ?r2))"
    using c ih by auto
  have a: "set (fst acc) \<union> set (v # vs) \<subseteq> set (fst ?r)" using c ih by auto
  have k: "\<forall>u \<in> set (fst ?r) - set (fst acc). akids st u \<subseteq> set (fst ?r) \<and> u \<in> subtree st (set (v # vs))"
  proof
    fix u assume "u \<in> set (fst ?r) - set (fst acc)"
    then consider "u \<in> set (fst ?r2) - set (fst acc)" | "u \<in> set (fst ?r) - set (fst ?r2)"
      unfolding new by auto
    then show "akids st u \<subseteq> set (fst ?r) \<and> u \<in> subtree st (set (v # vs))"
    proof cases
      case 1
      then have "akids st u \<subseteq> set (fst ?r2)" "u \<in> subtree st {v}" using c by auto
      then show ?thesis using ih subtree_mono[of u st "{v}" "set (v # vs)"] by auto
    next
      case 2
      then have "akids st u \<subseteq> set (fst ?r)" "u \<in> subtree st (set vs)" using ih by auto
      then show ?thesis using subtree_mono[of u st "set vs" "set (v # vs)"] by auto
    qed
  qed
  have f: "set (snd ?r) = set (snd acc) \<union> (\<Union>u \<in> set (fst ?r) - set (fst acc). afkids st u)"
  proof -
    have f3: "set (snd ?r) = set (snd ?r2) \<union> (\<Union>u \<in> set (fst ?r) - set (fst ?r2). afkids st u)"
      using ih by blast
    have f2: "set (snd ?r2) = set (snd acc) \<union> (\<Union>u \<in> set (fst ?r2) - set (fst acc). afkids st u)"
      using c by simp
    show ?thesis unfolding f3 f2 new by auto
  qed
  show ?case unfolding res using a k f by blast
qed

lemma deleteSets_sets:
  "set (fst (deleteSets st sel)) = subtree st (selectedAll (folders st) sel)"
  "set (snd (deleteSets st sel)) = selectedAll (files st) sel \<union>
     (\<Union>u \<in> subtree st (selectedAll (folders st) sel). afkids st u)"
proof -
  let ?vs = "map id' (filter (\<lambda>f. id' f \<in> set sel) (folders st))"
  let ?acc = "fold (markFolderAndChildren st) ?vs ([], [])"
  have vs: "set ?vs = selectedAll (folders st) sel" by (auto simp: selectedAll_def)
  have e: "fold (\<lambda>f acc. if id' f \<in> set sel then markFolderAndChildren st (id' f) acc else acc)
                  (folders st) ([], []) = ?acc"
    by (rule fold_filter_map[of "\<lambda>f. id' f \<in> set sel" "markFolderAndChildren st" id'])
  have r: "deleteSets st sel = (fst ?acc,
          fold (\<lambda>file filesToDelete. if id' file \<in> set sel
                                     then set_add (id' file) filesToDelete else filesToDelete)
            (files st) (snd ?acc))"
    unfolding deleteSets_def Let_def e ..
  note p = markFrom_post[of "([], [])" ?vs st]
  have sup: "subtree st (set ?vs) \<subseteq> set (fst ?acc)"
  proof
    fix u assume "u \<in> subtree st (set ?vs)"
    then show "u \<in> set (fst ?acc)"
    proof (induction rule: subtree.induct)
      case (start v)
      then show ?case using p by auto
    next
      case (child q f)
      then have "akids st q \<subseteq> set (fst ?acc)" using p by auto
      moreover have "id' f \<in> akids st q" using child.hyps by (auto simp: akids_def)
      ultimately show ?case by auto
    qed
  qed
  have eq: "set (fst ?acc) = subtree st (set ?vs)" using sup p by auto
  show "set (fst (deleteSets st sel)) = subtree st (selectedAll (folders st) sel)"
    unfolding r fst_conv using eq vs by simp
  have "set (snd (deleteSets st sel)) = set (snd ?acc) \<union> selectedAll (files st) sel"
    unfolding r snd_conv selectedAll_def by (subst set_fold_set_add) auto
  moreover have "set (snd ?acc) = (\<Union>u \<in> subtree st (set ?vs). afkids st u)"
    using p eq by simp
  ultimately show "set (snd (deleteSets st sel)) = selectedAll (files st) sel \<union>
     (\<Union>u \<in> subtree st (selectedAll (folders st) sel). afkids st u)"
    using vs by auto
qed

lemma cascade_empty: "cascade t st {} = {}"
proof -
  have "u \<in> cascade t st {} \<Longrightarrow> False" for u
    by (induction rule: cascade.induct) auto
  then show ?thesis by auto
qed

lemma subtree_empty: "subtree st {} = {}"
proof -
  have "u \<in> subtree st {} \<Longrightarrow> False" for u
    by (induction rule: subtree.induct) auto
  then show ?thesis by auto
qed

lemma selectedIn_Nil: "selectedIn t xs [] = {}" by (simp add: selectedIn_def)
lemma selectedAll_Nil: "selectedAll xs [] = {}" by (simp add: selectedAll_def)

lemma trashItem_eq:
  "trashItem f = f\<lparr>trashed := True,
       originalParentId := (case originalParentId f of None \<Rightarrow> parentId f | Some v \<Rightarrow> Some v)\<rparr>"
  by (simp add: trashItem_def nullish_def)

lemma moveToTrash_state:
  assumes "state b = Some st"
  shows "state (handleMoveToTrashSelected True b) =
     Some (st\<lparr>folders :=
                 map (\<lambda>f. if id' f \<in> trashFolderClosure st (selectedIds b)
                          then f\<lparr>trashed := True,
                                 originalParentId := (case originalParentId f of
                                    None \<Rightarrow> parentId f | Some v \<Rightarrow> Some v)\<rparr>
                          else f) (folders st),
               files :=
                 map (\<lambda>x. if id' x \<in> trashFileClosure st (selectedIds b)
                          then x\<lparr>trashed := True,
                                 originalParentId := (case originalParentId x of
                                    None \<Rightarrow> parentId x | Some v \<Rightarrow> Some v)\<rparr>
                          else x) (files st)\<rparr>)"
proof (cases "selectedIds b = []")
  case True
  then show ?thesis using assms
    by (simp add: handleMoveToTrashSelected_def trashFolderClosure_def trashFileClosure_def
        selectedIn_Nil cascade_empty)
next
  case False
  then show ?thesis using assms
    by (auto simp: handleMoveToTrashSelected_def Let_def trashSets_sets trashItem_eq
        trashFolderClosure_def trashFileClosure_def split: option.splits)
qed

lemma permanentDelete_state:
  assumes "state b = Some st"
  shows "state (handlePermanentDeleteSelected True b) =
     Some (st\<lparr>folders := filter (\<lambda>f. id' f \<notin> deletedFolderIds st (selectedIds b)) (folders st),
               files := filter (\<lambda>x. id' x \<notin> deletedFileIds st (selectedIds b)) (files st)\<rparr>)"
proof (cases "selectedIds b = []")
  case True
  then show ?thesis using assms
    by (simp add: handlePermanentDeleteSelected_def deletedFolderIds_def deletedFileIds_def
        selectedAll_Nil subtree_empty)
next
  case False
  then show ?thesis using assms
    by (auto simp: handlePermanentDeleteSelected_def Let_def deleteSets_sets
        deletedFolderIds_def deletedFileIds_def split: option.splits)
qed

lemma restoreItem_eq:
  "restoreItem root f = f\<lparr>trashed := False,
       parentId := (case originalParentId f of
                      None \<Rightarrow> (case parentId f of None \<Rightarrow> Some root | Some q \<Rightarrow> Some q)
                    | Some v \<Rightarrow> Some v),
       originalParentId := None\<rparr>"
  by (simp add: restoreItem_def nullish_def split: option.splits)

lemma restore_state:
  assumes "state b = Some st"
  shows "state (handleRestoreSelected b) =
     Some (st\<lparr>folders :=
                 map (\<lambda>f. if id' f \<in> restoreFolderClosure st (selectedIds b)
                          then restoreItem (rootFolderId st) f else f) (folders st),
               files :=
                 map (\<lambda>x. if id' x \<in> restoreFileClosure st (selectedIds b)
                          then restoreItem (rootFolderId st) x else x) (files st)\<rparr>)"
proof (cases "selectedIds b = []")
  case True
  then show ?thesis using assms
    by (simp add: handleRestoreSelected_def restoreFolderClosure_def restoreFileClosure_def
        selectedIn_Nil cascade_empty)
next
  case False
  have "(\<lambda>f. if id' f \<notin> A then f else restoreItem r f) = (\<lambda>f. if id' f \<in> A then restoreItem r f else f)"
    for A r and f :: "'a DriveFolder_scheme" by auto
  then show ?thesis using assms False
    by (auto simp: handleRestoreSelected_def Let_def restoreSets_sets
        restoreFolderClosure_def restoreFileClosure_def split: option.splits)
qed

lemma trash_state:
  assumes "state b = Some st"
  shows "state (handleMoveToTrashSelected True b) =
     Some (st\<lparr>folders :=
                 map (\<lambda>f. if id' f \<in> trashFolderClosure st (selectedIds b)
                          then trashItem f else f) (folders st),
               files :=
                 map (\<lambda>x. if id' x \<in> trashFileClosure st (selectedIds b)
                          then trashItem x else x) (files st)\<rparr>)"
  using moveToTrash_state[OF assms] by (simp add: trashItem_eq)

lemma filter_cong_set: "(\<And>x. x \<in> set xs \<Longrightarrow> P x = Q x) \<Longrightarrow> filter P xs = filter Q xs"
  by (induction xs) auto

lemma subtree_within:
  assumes "u \<in> subtree st S"
    and "\<And>v. v \<in> S \<Longrightarrow> v \<in> A"
    and "\<And>p f. p \<in> A \<Longrightarrow> f \<in> set (folders st) \<Longrightarrow> parentId f = Some p \<Longrightarrow> id' f \<in> A"
  shows "u \<in> A"
  using assms(1)
proof (induction rule: subtree.induct)
  case (start v)
  then show ?case by (rule assms(2))
next
  case (child p f)
  from child.IH child.hyps(2) child.hyps(3) show ?case by (rule assms(3))
qed

lemma cascade_within:
  assumes "u \<in> cascade t st S"
    and "\<And>v. v \<in> S \<Longrightarrow> v \<in> A"
    and "\<And>p f. p \<in> A \<Longrightarrow> f \<in> set (folders st) \<Longrightarrow> trashed f = t \<Longrightarrow> parentId f = Some p
           \<Longrightarrow> id' f \<in> A"
  shows "u \<in> A"
  using assms(1)
proof (induction rule: cascade.induct)
  case (start v)
  then show ?case by (rule assms(2))
next
  case (child p f)
  from child.IH child.hyps(2) child.hyps(3) child.hyps(4) show ?case by (rule assms(3))
qed

lemma set_trashed_ids:
  "set (foldersToDelete b @ filesToDelete b) =
     id' ` {f \<in> set (foldersOf b). trashed f} \<union> id' ` {x \<in> set (filesOf b). trashed x}"
  by (auto simp: foldersToDelete_def filesToDelete_def)

lemma deleted_folders_are_trashed:
  assumes cd: "trashed_closed_down b" and ap: "trashed_ids_apart b" and st: "state b = Some st"
    and u: "u \<in> deletedFolderIds st (foldersToDelete b @ filesToDelete b)"
  shows "u \<in> id' ` {f \<in> set (folders st). trashed f}"
proof -
  have fo: "foldersOf b = folders st" using st by (simp add: foldersOf_def)
  show ?thesis
  proof (rule subtree_within[OF u[unfolded deletedFolderIds_def]])
    fix v assume "v \<in> selectedAll (folders st) (foldersToDelete b @ filesToDelete b)"
    then obtain f where f: "f \<in> set (folders st)" "id' f = v"
        "id' f \<in> set (foldersToDelete b @ filesToDelete b)"
      unfolding selectedAll_def by blast
    have "trashed f" using ap f(1) f(3) unfolding trashed_ids_apart_def fo by blast
    with f show "v \<in> id' ` {f \<in> set (folders st). trashed f}" by blast
  next
    fix p f assume p: "p \<in> id' ` {f \<in> set (folders st). trashed f}"
      and f: "f \<in> set (folders st)" "parentId f = Some p"
    from p obtain g where g: "g \<in> set (folders st)" "trashed g" "id' g = p" by blast
    have "trashed f" using cd g f unfolding trashed_closed_down_def fo by blast
    with f show "id' f \<in> id' ` {f \<in> set (folders st). trashed f}" by blast
  qed
qed

lemma deleted_folder_iff_trashed:
  assumes cd: "trashed_closed_down b" and ap: "trashed_ids_apart b" and st: "state b = Some st"
    and fin: "f \<in> set (folders st)"
  shows "(id' f \<notin> deletedFolderIds st (foldersToDelete b @ filesToDelete b)) = (\<not> trashed f)"
proof -
  have fo: "foldersOf b = folders st" using st by (simp add: foldersOf_def)
  have a: "trashed f" if "id' f \<in> deletedFolderIds st (foldersToDelete b @ filesToDelete b)"
  proof -
    have "id' f \<in> set (foldersToDelete b @ filesToDelete b)"
      using deleted_folders_are_trashed[OF cd ap st that] unfolding set_trashed_ids fo by blast
    then show ?thesis using ap fin unfolding trashed_ids_apart_def fo by blast
  qed
  have b: "id' f \<in> deletedFolderIds st (foldersToDelete b @ filesToDelete b)" if "trashed f"
    unfolding deletedFolderIds_def
  proof (rule subtree.start)
    show "id' f \<in> selectedAll (folders st) (foldersToDelete b @ filesToDelete b)"
      unfolding selectedAll_def set_trashed_ids fo using fin that by blast
  qed
  show ?thesis using a b by blast
qed

lemma deleted_file_iff_trashed:
  assumes cd: "trashed_closed_down b" and ap: "trashed_ids_apart b" and st: "state b = Some st"
    and xin: "x \<in> set (files st)"
  shows "(id' x \<notin> deletedFileIds st (foldersToDelete b @ filesToDelete b)) = (\<not> trashed x)"
proof -
  let ?sel = "foldersToDelete b @ filesToDelete b"
  have fo: "foldersOf b = folders st" and fi: "filesOf b = files st"
    using st by (simp_all add: foldersOf_def filesOf_def)
  have a: "trashed x" if "id' x \<in> deletedFileIds st ?sel"
  proof -
    from that consider "id' x \<in> set ?sel"
      | y p where "y \<in> set (files st)" "parentId y = Some p" "p \<in> deletedFolderIds st ?sel"
          "id' y = id' x"
      unfolding deletedFileIds_def selectedAll_def afkids_def by auto
    then have "id' x \<in> set ?sel"
    proof cases
      case 1 then show ?thesis .
    next
      case 2
      from deleted_folders_are_trashed[OF cd ap st 2(3)]
      obtain g where g: "g \<in> set (folders st)" "trashed g" "id' g = p" by blast
      have "trashed y" using cd g 2(1) 2(2) unfolding trashed_closed_down_def fo fi by blast
      then have "id' y \<in> set ?sel" unfolding set_trashed_ids fi using 2(1) by blast
      then show ?thesis using 2(4) by simp
    qed
    then show ?thesis using ap xin unfolding trashed_ids_apart_def fi by blast
  qed
  have b: "id' x \<in> deletedFileIds st ?sel" if "trashed x"
  proof -
    have "id' x \<in> selectedAll (files st) ?sel"
      unfolding selectedAll_def set_trashed_ids fi using xin that by blast
    then show ?thesis unfolding deletedFileIds_def by blast
  qed
  show ?thesis using a b by blast
qed

lemma no_trash_no_ids: "\<not> hasTrash b \<Longrightarrow> foldersToDelete b @ filesToDelete b = []"
  by (simp add: hasTrash_def foldersToDelete_def filesToDelete_def list_ex_iff filter_empty_conv)

lemma trashItem_fields [simp]:
  "id' (trashItem f) = id' f" "parentId (trashItem f) = parentId f" "trashed (trashItem f)"
  by (simp_all add: trashItem_def)

lemma stateAfterTrash_fields [simp]:
  "rootFolderId (stateAfterTrash st sel) = rootFolderId st"
  by (simp add: stateAfterTrash_def)

lemma in_folders_after_trash:
  "f1 \<in> set (folders (stateAfterTrash st sel)) \<Longrightarrow>
     \<exists>f \<in> set (folders st). id' f1 = id' f \<and> parentId f1 = parentId f
        \<and> (trashed f1 \<longleftrightarrow> trashed f \<or> id' f \<in> trashFolderClosure st sel)"
  by (auto simp: stateAfterTrash_def)

lemma in_files_after_trash:
  "x1 \<in> set (files (stateAfterTrash st sel)) \<Longrightarrow>
     \<exists>x \<in> set (files st). id' x1 = id' x \<and> parentId x1 = parentId x
        \<and> (trashed x1 \<longleftrightarrow> trashed x \<or> id' x \<in> trashFileClosure st sel)"
  by (auto simp: stateAfterTrash_def)

lemma folders_after_trash_intro:
  "f \<in> set (folders st) \<Longrightarrow> id' f \<in> trashFolderClosure st sel \<Longrightarrow>
     trashItem f \<in> set (folders (stateAfterTrash st sel))"
  by (auto simp: stateAfterTrash_def)

lemma files_after_trash_intro:
  "x \<in> set (files st) \<Longrightarrow> id' x \<in> trashFileClosure st sel \<Longrightarrow>
     trashItem x \<in> set (files (stateAfterTrash st sel))"
  by (auto simp: stateAfterTrash_def)

lemma selectedInI:
  "x \<in> set xs \<Longrightarrow> trashed x = t \<Longrightarrow> id' x \<in> set sel \<Longrightarrow> id' x \<in> selectedIn t xs sel"
  by (auto simp: selectedIn_def)

lemma fkidsI:
  "x \<in> set (files st) \<Longrightarrow> trashed x = t \<Longrightarrow> parentId x = Some p \<Longrightarrow> id' x \<in> fkids t st p"
  by (auto simp: fkids_def)

lemma trash_in_roundTrip:
  assumes "u \<in> trashFolderClosure st [F]"
  shows "u \<in> roundTripFolderIds st F"
proof -
  let ?st1 = "stateAfterTrash st [F]"
  let ?A = "{u. u \<in> trashFolderClosure st [F] \<and> u \<in> roundTripFolderIds st F}"
  have "u \<in> ?A"
  proof (rule cascade_within[OF assms[unfolded trashFolderClosure_def]])
    fix v assume v: "v \<in> selectedIn False (folders st) [F]"
    then obtain f where f: "f \<in> set (folders st)" "id' f = v" "v = F"
      unfolding selectedIn_def by auto
    have vT: "v \<in> trashFolderClosure st [F]"
      unfolding trashFolderClosure_def using v by (rule cascade.start)
    have "trashItem f \<in> set (folders ?st1)"
      using f(1) vT f(2) by (auto intro: folders_after_trash_intro)
    then have "id' (trashItem f) \<in> selectedIn True (folders ?st1) [F]"
      by (rule selectedInI) (use f in simp_all)
    then have "v \<in> selectedIn True (folders ?st1) [F]" using f by simp
    then have "v \<in> roundTripFolderIds st F"
      unfolding roundTripFolderIds_def restoreFolderClosure_def by (rule cascade.start)
    with vT show "v \<in> ?A" by simp
  next
    fix p f assume p: "p \<in> ?A" and f: "f \<in> set (folders st)" "trashed f = False" "parentId f = Some p"
    have fT: "id' f \<in> trashFolderClosure st [F]"
      unfolding trashFolderClosure_def
      using p f by (auto intro: cascade.child simp: trashFolderClosure_def)
    have in1: "trashItem f \<in> set (folders ?st1)" using f(1) fT by (rule folders_after_trash_intro)
    have "id' (trashItem f) \<in> cascade True ?st1 (selectedIn True (folders ?st1) [F])"
    proof (rule cascade.child[of p])
      show "p \<in> cascade True ?st1 (selectedIn True (folders ?st1) [F])"
        using p by (simp add: roundTripFolderIds_def restoreFolderClosure_def)
      show "trashItem f \<in> set (folders ?st1)" by (rule in1)
      show "trashed (trashItem f) = True" by simp
      show "parentId (trashItem f) = Some p" using f(3) by simp
    qed
    then have "id' f \<in> roundTripFolderIds st F"
      by (simp add: roundTripFolderIds_def restoreFolderClosure_def)
    with fT show "id' f \<in> ?A" by simp
  qed
  then show ?thesis by simp
qed

lemma roundTrip_in_subtree:
  assumes "u \<in> roundTripFolderIds st F"
  shows "u \<in> subtree st {F}"
proof (rule cascade_within[OF assms[unfolded roundTripFolderIds_def restoreFolderClosure_def]])
  fix v assume "v \<in> selectedIn True (folders (stateAfterTrash st [F])) [F]"
  then have "v = F" unfolding selectedIn_def by auto
  then show "v \<in> subtree st {F}" by (auto intro: subtree.start)
next
  fix p f1 assume p: "p \<in> subtree st {F}" and f1: "f1 \<in> set (folders (stateAfterTrash st [F]))"
    "parentId f1 = Some p"
  from in_folders_after_trash[OF f1(1)] obtain f where
    f: "f \<in> set (folders st)" "id' f1 = id' f" "parentId f1 = parentId f" by blast
  have "id' f \<in> subtree st {F}" using p f(1) f1(2) f(3) by (auto intro: subtree.child)
  then show "id' f1 \<in> subtree st {F}" using f(2) by simp
qed

lemma trash_files_in_roundTrip:
  assumes "u \<in> trashFileClosure st [F]"
  shows "u \<in> roundTripFileIds st F"
proof -
  let ?st1 = "stateAfterTrash st [F]"
  from assms consider
      y where "y \<in> set (files st)" "id' y = u" "u = F"
    | y p where "y \<in> set (files st)" "id' y = u" "trashed y = False" "parentId y = Some p"
        "p \<in> trashFolderClosure st [F]"
    unfolding trashFileClosure_def selectedIn_def fkids_def by auto
  then show ?thesis
  proof cases
    case 1
    have "trashItem y \<in> set (files ?st1)" using 1(1) assms 1(2) by (auto intro: files_after_trash_intro)
    then have "id' (trashItem y) \<in> selectedIn True (files ?st1) [F]"
      by (rule selectedInI) (use 1 in simp_all)
    then have "u \<in> selectedIn True (files ?st1) [F]" using 1 by simp
    then show ?thesis unfolding roundTripFileIds_def restoreFileClosure_def by blast
  next
    case 2
    have in1: "trashItem y \<in> set (files ?st1)" using 2(1) assms 2(2) by (auto intro: files_after_trash_intro)
    have "p \<in> restoreFolderClosure ?st1 [F]"
      using trash_in_roundTrip[OF 2(5)] by (simp add: roundTripFolderIds_def)
    moreover have "u \<in> fkids True ?st1 p"
    proof -
      have "id' (trashItem y) \<in> fkids True ?st1 p"
        using in1 by (rule fkidsI) (use 2 in simp_all)
      then show ?thesis using 2 by simp
    qed
    ultimately show ?thesis unfolding roundTripFileIds_def restoreFileClosure_def by blast
  qed
qed

lemma roundTrip_files_in_subtree:
  assumes "u \<in> roundTripFileIds st F"
  shows "u \<in> insert F (\<Union>p \<in> subtree st {F}. afkids st p)"
proof -
  let ?st1 = "stateAfterTrash st [F]"
  from assms consider "u = F"
    | y1 p where "y1 \<in> set (files ?st1)" "id' y1 = u" "parentId y1 = Some p"
        "p \<in> roundTripFolderIds st F"
    unfolding roundTripFileIds_def roundTripFolderIds_def restoreFileClosure_def selectedIn_def fkids_def
    by auto
  then show ?thesis
  proof cases
    case 1 then show ?thesis by simp
  next
    case 2
    from in_files_after_trash[OF 2(1)] obtain y where
      y: "y \<in> set (files st)" "id' y1 = id' y" "parentId y1 = parentId y" by blast
    have "u \<in> afkids st p" unfolding afkids_def using y 2 by force
    then show ?thesis using roundTrip_in_subtree[OF 2(4)] by blast
  qed
qed

lemma roundTrip_item:
  fixes f :: "'a DriveFolder_scheme"
  assumes "inR \<or> \<not> inT" and "inR \<Longrightarrow> originalParentId f = None"
  shows "(\<lambda>g. if inR then restoreItem root g else g) (if inT then trashItem f else f)
         = (if inR then f\<lparr>trashed := False,
                          parentId := (case parentId f of None \<Rightarrow> Some root | Some q \<Rightarrow> Some q),
                          originalParentId := None\<rparr>
            else f)"
  using assms by (auto simp: restoreItem_def trashItem_def nullish_def split: option.splits)

lemma selected_folder_in_roundTrip:
  assumes "f \<in> set (folders st)" and "id' f = F"
  shows "F \<in> roundTripFolderIds st F"
proof (cases "trashed f")
  case False
  have "id' f \<in> selectedIn False (folders st) [F]"
    using assms(1) by (rule selectedInI) (use False assms(2) in simp_all)
  then have "F \<in> trashFolderClosure st [F]"
    unfolding trashFolderClosure_def using assms(2) by (auto intro: cascade.start)
  then show ?thesis by (rule trash_in_roundTrip)
next
  case True
  let ?f1 = "if id' f \<in> trashFolderClosure st [F] then trashItem f else f"
  have in1: "?f1 \<in> set (folders (stateAfterTrash st [F]))"
    using assms(1) by (auto simp: stateAfterTrash_def)
  have "id' ?f1 \<in> selectedIn True (folders (stateAfterTrash st [F])) [F]"
    using in1 by (rule selectedInI) (use True assms(2) in \<open>simp_all split: if_splits\<close>)
  then have "F \<in> selectedIn True (folders (stateAfterTrash st [F])) [F]"
    using assms(2) by (simp split: if_splits)
  then show ?thesis
    unfolding roundTripFolderIds_def restoreFolderClosure_def by (rule cascade.start)
qed

lemma map_cong_set: "(\<And>x. x \<in> set xs \<Longrightarrow> g x = h x) \<Longrightarrow> map g xs = map h xs"
  by (induction xs) auto

lemma trashThenRestore_state:
  assumes "state b = Some st"
  shows "state (trashThenRestore F b) =
     Some (st\<lparr>folders :=
                 map (\<lambda>f. (\<lambda>g. if id' f \<in> roundTripFolderIds st F
                                then restoreItem (rootFolderId st) g else g)
                          (if id' f \<in> trashFolderClosure st [F] then trashItem f else f))
                   (folders st),
               files :=
                 map (\<lambda>x. (\<lambda>g. if id' x \<in> roundTripFileIds st F
                                then restoreItem (rootFolderId st) g else g)
                          (if id' x \<in> trashFileClosure st [F] then trashItem x else x))
                   (files st)\<rparr>)"
proof -
  let ?b0 = "b\<lparr>selectedIds := [F]\<rparr>"
  let ?b1 = "handleMoveToTrashSelected True ?b0"
  have s0: "state ?b0 = Some st" using assms by simp
  have s1: "state ?b1 = Some (stateAfterTrash st [F])"
    using trash_state[OF s0] by (simp add: stateAfterTrash_def)
  have s1': "state (?b1\<lparr>selectedIds := [F]\<rparr>) = Some (stateAfterTrash st [F])"
    using s1 by simp
  have idt: "id' (if c then trashItem f else f) = id' f" for c and f :: "'a DriveFolder_scheme"
    by simp
  show ?thesis
    unfolding trashThenRestore_def restore_state[OF s1']
    by (simp add: stateAfterTrash_def roundTripFolderIds_def roundTripFileIds_def o_def idt
        cong: if_cong)
qed

lemma restoreItem_fields [simp]:
  "id' (restoreItem r f) = id' f" "\<not> trashed (restoreItem r f)" "originalParentId (restoreItem r f) = None"
  by (simp_all add: restoreItem_def)

lemma in_folders_after_trashE:
  assumes "f1 \<in> set (folders (stateAfterTrash st sel))"
  obtains f where "f \<in> set (folders st)"
    "f1 = (if id' f \<in> trashFolderClosure st sel then trashItem f else f)"
  using assms by (auto simp: stateAfterTrash_def)

lemma in_files_after_trashE:
  assumes "x1 \<in> set (files (stateAfterTrash st sel))"
  obtains x where "x \<in> set (files st)"
    "x1 = (if id' x \<in> trashFileClosure st sel then trashItem x else x)"
  using assms by (auto simp: stateAfterTrash_def)

lemma in_folders_after_restoreE:
  assumes "f1 \<in> set (folders (stateAfterRestore st sel))"
  obtains f where "f \<in> set (folders st)"
    "f1 = (if id' f \<in> restoreFolderClosure st sel then restoreItem (rootFolderId st) f else f)"
  using assms by (auto simp: stateAfterRestore_def)

lemma in_files_after_restoreE:
  assumes "x1 \<in> set (files (stateAfterRestore st sel))"
  obtains x where "x \<in> set (files st)"
    "x1 = (if id' x \<in> restoreFileClosure st sel then restoreItem (rootFolderId st) x else x)"
  using assms by (auto simp: stateAfterRestore_def)

text \<open>
  moveToTrash keeps \<open>live_parents_ok\<close>: an item left not trashed has a parent that was
  not trashed, and that parent is not marked, or the cascade would have marked the
  item too.
\<close>

lemma trash_preserves:
  assumes live: "live_parents_ok st"
  shows "live_parents_ok (stateAfterTrash st sel)"
proof -
  let ?T = "trashFolderClosure st sel" and ?X = "trashFileClosure st sel"
  let ?st1 = "stateAfterTrash st sel"
  have kidT: "id' f \<in> ?T" if "f \<in> set (folders st)" "\<not> trashed f" "parentId f = Some p" "p \<in> ?T"
    for f p
    unfolding trashFolderClosure_def
    by (rule cascade.child[of p]) (use that in \<open>simp_all add: trashFolderClosure_def\<close>)
  have kidX: "id' x \<in> ?X" if "x \<in> set (files st)" "\<not> trashed x" "parentId x = Some p" "p \<in> ?T"
    for x p
    unfolding trashFileClosure_def fkids_def using that by auto
  show ?thesis
    unfolding live_parents_ok_def
  proof (intro conjI ballI impI)
    fix x1 f1 assume x1: "x1 \<in> set (folders ?st1)" "\<not> trashed x1"
      and f1: "f1 \<in> set (folders ?st1)" "parentId x1 = Some (id' f1)"
    from x1(1) obtain x where x: "x \<in> set (folders st)"
      "x1 = (if id' x \<in> ?T then trashItem x else x)" by (rule in_folders_after_trashE)
    from f1(1) obtain f where f: "f \<in> set (folders st)"
      "f1 = (if id' f \<in> ?T then trashItem f else f)" by (rule in_folders_after_trashE)
    have xT: "id' x \<notin> ?T" using x1(2) x(2) by (auto split: if_splits)
    then have xx: "x1 = x" using x(2) by simp
    have px: "parentId x = Some (id' f)" using f1(2) xx f(2) by (simp split: if_splits)
    have fT: "id' f \<notin> ?T" using kidT[OF x(1) _ px] x1(2) xx xT by blast
    have "\<not> trashed f" using live x(1) f(1) px x1(2) xx unfolding live_parents_ok_def by blast
    then show "\<not> trashed f1" using f(2) fT by simp
  next
    fix x1 f1 assume x1: "x1 \<in> set (files ?st1)" "\<not> trashed x1"
      and f1: "f1 \<in> set (folders ?st1)" "parentId x1 = Some (id' f1)"
    from x1(1) obtain x where x: "x \<in> set (files st)"
      "x1 = (if id' x \<in> ?X then trashItem x else x)" by (rule in_files_after_trashE)
    from f1(1) obtain f where f: "f \<in> set (folders st)"
      "f1 = (if id' f \<in> ?T then trashItem f else f)" by (rule in_folders_after_trashE)
    have xT: "id' x \<notin> ?X" using x1(2) x(2) by (auto split: if_splits)
    then have xx: "x1 = x" using x(2) by simp
    have px: "parentId x = Some (id' f)" using f1(2) xx f(2) by (simp split: if_splits)
    have fT: "id' f \<notin> ?T" using kidX[OF x(1) _ px] x1(2) xx xT by blast
    have "\<not> trashed f" using live x(1) f(1) px x1(2) xx unfolding live_parents_ok_def by blast
    then show "\<not> trashed f1" using f(2) fT by simp
  qed
qed

lemma stateAfterRestore_root [simp]:
  "rootFolderId (stateAfterRestore st sel) = rootFolderId st"
  by (simp add: stateAfterRestore_def)

text \<open>
  The parent of an item after a restore is not trashed: a restored folder is not
  trashed; a folder that is not restored is the parent either of a restored item,
  which lands on a folder that is not trashed, or of an item left as it was.
\<close>

lemma restored_parent_live:
  fixes x :: "'a DriveFolder_scheme"
  assumes live: "\<not> trashed x \<Longrightarrow> \<forall>f \<in> set (folders st). parentId x = Some (id' f) \<longrightarrow> \<not> trashed f"
    and ok: "inX \<Longrightarrow> lands_live st folderIds x"
    and R: "set folderIds = restoreFolderClosure st sel"
    and x1: "x1 = (if inX then restoreItem (rootFolderId st) x else x)" "\<not> trashed x1"
    and f1: "f1 \<in> set (folders (stateAfterRestore st sel))" "parentId x1 = Some (id' f1)"
  shows "\<not> trashed f1"
proof -
  from f1(1) obtain f where f: "f \<in> set (folders st)"
    "f1 = (if id' f \<in> restoreFolderClosure st sel then restoreItem (rootFolderId st) f else f)"
    by (rule in_folders_after_restoreE)
  have idf: "id' f1 = id' f" using f(2) by (simp split: if_splits)
  show ?thesis
  proof (cases "id' f \<in> restoreFolderClosure st sel")
    case True
    then show ?thesis using f(2) by simp
  next
    case False
    then have ff: "f1 = f" using f(2) by simp
    show ?thesis
    proof (cases inX)
      case True
      then have "parentId (restoreItem (rootFolderId st) x) = Some (id' f)"
        using x1(1) f1(2) idf by simp
      moreover have "lands_live st folderIds x" using ok True by simp
      ultimately have "\<not> trashed f \<or> id' f \<in> set folderIds"
        using f(1) unfolding lands_live_def by blast
      then show ?thesis using False R ff by simp
    next
      case False
      then have "x1 = x" using x1(1) by simp
      then have "\<not> trashed x" "parentId x = Some (id' f)" using x1(2) f1(2) idf by simp_all
      then have "\<not> trashed f" using live f(1) by blast
      then show ?thesis using ff by simp
    qed
  qed
qed

lemma restore_preserves:
  assumes live: "live_parents_ok st"
    and okf: "\<forall>x \<in> set (folders st). id' x \<in> set (fst (restoreSets st sel))
                \<longrightarrow> lands_live st (fst (restoreSets st sel)) x"
    and okx: "\<forall>x \<in> set (files st). id' x \<in> set (snd (restoreSets st sel))
                \<longrightarrow> lands_live st (fst (restoreSets st sel)) x"
  shows "live_parents_ok (stateAfterRestore st sel)"
proof -
  let ?st1 = "stateAfterRestore st sel"
  have R: "set (fst (restoreSets st sel)) = restoreFolderClosure st sel"
    by (simp add: restoreSets_sets restoreFolderClosure_def)
  have X: "set (snd (restoreSets st sel)) = restoreFileClosure st sel"
    by (simp add: restoreSets_sets restoreFileClosure_def restoreFolderClosure_def)
  show ?thesis
    unfolding live_parents_ok_def
  proof (intro conjI ballI impI)
    fix x1 f1 assume x1: "x1 \<in> set (folders ?st1)" "\<not> trashed x1"
      and f1: "f1 \<in> set (folders ?st1)" "parentId x1 = Some (id' f1)"
    from x1(1) obtain x where x: "x \<in> set (folders st)"
      "x1 = (if id' x \<in> restoreFolderClosure st sel then restoreItem (rootFolderId st) x else x)"
      by (rule in_folders_after_restoreE)
    have l: "\<not> trashed x \<Longrightarrow> \<forall>f \<in> set (folders st). parentId x = Some (id' f) \<longrightarrow> \<not> trashed f"
      using live x(1) unfolding live_parents_ok_def by blast
    have k: "id' x \<in> restoreFolderClosure st sel \<Longrightarrow> lands_live st (fst (restoreSets st sel)) x"
      using okf x(1) R by blast
    from l k R x(2) x1(2) f1 show "\<not> trashed f1" by (rule restored_parent_live)
  next
    fix x1 f1 assume x1: "x1 \<in> set (files ?st1)" "\<not> trashed x1"
      and f1: "f1 \<in> set (folders ?st1)" "parentId x1 = Some (id' f1)"
    from x1(1) obtain x where x: "x \<in> set (files st)"
      "x1 = (if id' x \<in> restoreFileClosure st sel then restoreItem (rootFolderId st) x else x)"
      by (rule in_files_after_restoreE)
    have l: "\<not> trashed x \<Longrightarrow> \<forall>f \<in> set (folders st). parentId x = Some (id' f) \<longrightarrow> \<not> trashed f"
      using live x(1) unfolding live_parents_ok_def by blast
    have k: "id' x \<in> restoreFileClosure st sel \<Longrightarrow> lands_live st (fst (restoreSets st sel)) x"
      using okx x(1) X by blast
    from l k R x(2) x1(2) f1 show "\<not> trashed f1" by (rule restored_parent_live)
  qed
qed

lemma apply_operation_state:
  assumes "state b = Some st"
  shows "state (apply_operation (MoveToTrash sel) b) = Some (stateAfterTrash st sel)"
    and "state (apply_operation (Restore sel) b) = Some (stateAfterRestore st sel)"
proof -
  have s: "state (b\<lparr>selectedIds := sel\<rparr>) = Some st" using assms by simp
  show "state (apply_operation (MoveToTrash sel) b) = Some (stateAfterTrash st sel)"
    using trash_state[OF s] by (simp add: stateAfterTrash_def)
  show "state (apply_operation (Restore sel) b) = Some (stateAfterRestore st sel)"
    using restore_state[OF s] by (simp add: stateAfterRestore_def)
qed

lemma operation_preserves:
  assumes "state b = Some st" and "live_parents_ok st" and "operation_ok op b"
  shows "\<exists>st'. state (apply_operation op b) = Some st' \<and> live_parents_ok st'"
proof (cases op)
  case (MoveToTrash sel)
  have "live_parents_ok (stateAfterTrash st sel)" using assms(2) by (rule trash_preserves)
  then show ?thesis using apply_operation_state(1)[OF assms(1)] MoveToTrash by simp
next
  case (Restore sel)
  have "live_parents_ok (stateAfterRestore st sel)"
    using assms Restore by (intro restore_preserves) (simp_all add: Let_def)
  then show ?thesis using apply_operation_state(2)[OF assms(1)] Restore by simp
qed

section \<open>The claims\<close>

text \<open>
  C1, as stated: moveToTrash of a folder followed at once by restore of it returns every
  affected item to its exact \<^verbatim>\<open>parentId\<close>. It fails for an item whose \<^verbatim>\<open>parentId\<close> is
  null: restore falls back to \<^verbatim>\<open>rootFolderId\<close>. With nothing trashed and no
  \<^verbatim>\<open>originalParentId\<close> set anywhere, the round trip on the root folder (id 1) leaves
  the root with \<^verbatim>\<open>parentId\<close> 1 instead of null; and the round trip on Docs (id 2), when
  a top-level file has the id 2 as well, leaves that file with \<^verbatim>\<open>parentId\<close> 1 instead
  of null.
\<close>

theorem roundtrip_null_parent_counterexample:
  "map originalParentId (foldersOf family_example) = [None, None, None]
   \<and> map trashed (foldersOf family_example) = [False, False, False]
   \<and> map parentId (foldersOf family_example) = [None, Some 1, Some 2]
   \<and> map parentId (foldersOf (trashThenRestore 1 family_example)) = [Some 1, Some 1, Some 2]
   \<and> map id' (filesOf namesake_example) = [2]
   \<and> map trashed (filesOf namesake_example) = [False]
   \<and> map originalParentId (filesOf namesake_example) = [None]
   \<and> map parentId (filesOf namesake_example) = [None]
   \<and> map parentId (filesOf (trashThenRestore 2 namesake_example)) = [Some 1]"
proof -
  have a: "map originalParentId (foldersOf family_example) = [None, None, None]" by code_simp
  have b: "map trashed (foldersOf family_example) = [False, False, False]" by code_simp
  have c: "map parentId (foldersOf family_example) = [None, Some 1, Some 2]" by code_simp
  have d: "map parentId (foldersOf (trashThenRestore 1 family_example)) = [Some 1, Some 1, Some 2]"
    by code_simp
  have e: "map id' (filesOf namesake_example) = [2]" by code_simp
  have f: "map trashed (filesOf namesake_example) = [False]" by code_simp
  have g: "map originalParentId (filesOf namesake_example) = [None]" by code_simp
  have h: "map parentId (filesOf namesake_example) = [None]" by code_simp
  have i: "map parentId (filesOf (trashThenRestore 2 namesake_example)) = [Some 1]" by code_simp
  show ?thesis using a b c d e f g h i by blast
qed

text \<open>
  C1, amended: let no folder whose id is in the subtree of \<open>F\<close>, and no file that has
  the id \<open>F\<close> or is directly in a folder of that subtree, carry an
  \<^verbatim>\<open>originalParentId\<close>. Then moveToTrash of \<open>F\<close> followed at once by restore of \<open>F\<close>
  leaves every affected item with \<^verbatim>\<open>trashed = false\<close>, \<^verbatim>\<open>originalParentId = null\<close> and
  its \<^verbatim>\<open>parentId\<close> from before when that was not null, \<^verbatim>\<open>rootFolderId\<close> when it was
  null; every other field and every other item is as before. The affected items
  include the folder \<open>F\<close> and all that moveToTrash marked, and lie in the subtree of
  \<open>F\<close>.
\<close>

theorem trash_restore_roundtrip:
  assumes "state b = Some st"
    and "\<forall>f \<in> set (folders st). id' f \<in> subtree st {F} \<longrightarrow> originalParentId f = None"
    and "\<forall>x \<in> set (files st). id' x \<in> insert F (\<Union>p \<in> subtree st {F}. afkids st p)
           \<longrightarrow> originalParentId x = None"
  shows "state (trashThenRestore F b) =
     Some (st\<lparr>folders :=
                 map (\<lambda>f. if id' f \<in> roundTripFolderIds st F
                          then f\<lparr>trashed := False,
                                 parentId := (case parentId f of
                                    None \<Rightarrow> Some (rootFolderId st) | Some q \<Rightarrow> Some q),
                                 originalParentId := None\<rparr>
                          else f) (folders st),
               files :=
                 map (\<lambda>x. if id' x \<in> roundTripFileIds st F
                          then x\<lparr>trashed := False,
                                 parentId := (case parentId x of
                                    None \<Rightarrow> Some (rootFolderId st) | Some q \<Rightarrow> Some q),
                                 originalParentId := None\<rparr>
                          else x) (files st)\<rparr>)
   \<and> trashFolderClosure st [F] \<subseteq> roundTripFolderIds st F
   \<and> roundTripFolderIds st F \<subseteq> subtree st {F}
   \<and> trashFileClosure st [F] \<subseteq> roundTripFileIds st F
   \<and> roundTripFileIds st F \<subseteq> insert F (\<Union>p \<in> subtree st {F}. afkids st p)
   \<and> (F \<in> id' ` set (folders st) \<longrightarrow> F \<in> roundTripFolderIds st F)"
proof -
  have i0: "F \<in> id' ` set (folders st) \<longrightarrow> F \<in> roundTripFolderIds st F"
    using selected_folder_in_roundTrip by blast
  have i1: "trashFolderClosure st [F] \<subseteq> roundTripFolderIds st F"
    using trash_in_roundTrip by blast
  have i2: "roundTripFolderIds st F \<subseteq> subtree st {F}"
    using roundTrip_in_subtree by blast
  have i3: "trashFileClosure st [F] \<subseteq> roundTripFileIds st F"
    using trash_files_in_roundTrip by blast
  have i4: "roundTripFileIds st F \<subseteq> insert F (\<Union>p \<in> subtree st {F}. afkids st p)"
    using roundTrip_files_in_subtree by blast
  have fo: "map (\<lambda>f. (\<lambda>g. if id' f \<in> roundTripFolderIds st F
                                then restoreItem (rootFolderId st) g else g)
                          (if id' f \<in> trashFolderClosure st [F] then trashItem f else f))
                   (folders st)
      = map (\<lambda>f. if id' f \<in> roundTripFolderIds st F
                          then f\<lparr>trashed := False,
                                 parentId := (case parentId f of
                                    None \<Rightarrow> Some (rootFolderId st) | Some q \<Rightarrow> Some q),
                                 originalParentId := None\<rparr>
                          else f) (folders st)"
  proof (rule map_cong_set)
    fix f assume fin: "f \<in> set (folders st)"
    show "(\<lambda>g. if id' f \<in> roundTripFolderIds st F then restoreItem (rootFolderId st) g else g)
            (if id' f \<in> trashFolderClosure st [F] then trashItem f else f)
        = (if id' f \<in> roundTripFolderIds st F
           then f\<lparr>trashed := False,
                  parentId := (case parentId f of
                     None \<Rightarrow> Some (rootFolderId st) | Some q \<Rightarrow> Some q),
                  originalParentId := None\<rparr>
           else f)"
    proof (rule roundTrip_item)
      show "id' f \<in> roundTripFolderIds st F \<or> id' f \<notin> trashFolderClosure st [F]"
        using i1 by blast
      show "id' f \<in> roundTripFolderIds st F \<Longrightarrow> originalParentId f = None"
        using assms(2) fin i2 by blast
    qed
  qed
  have fi: "map (\<lambda>x. (\<lambda>g. if id' x \<in> roundTripFileIds st F
                                then restoreItem (rootFolderId st) g else g)
                          (if id' x \<in> trashFileClosure st [F] then trashItem x else x))
                   (files st)
      = map (\<lambda>x. if id' x \<in> roundTripFileIds st F
                          then x\<lparr>trashed := False,
                                 parentId := (case parentId x of
                                    None \<Rightarrow> Some (rootFolderId st) | Some q \<Rightarrow> Some q),
                                 originalParentId := None\<rparr>
                          else x) (files st)"
  proof (rule map_cong_set)
    fix x assume xin: "x \<in> set (files st)"
    show "(\<lambda>g. if id' x \<in> roundTripFileIds st F then restoreItem (rootFolderId st) g else g)
            (if id' x \<in> trashFileClosure st [F] then trashItem x else x)
        = (if id' x \<in> roundTripFileIds st F
           then x\<lparr>trashed := False,
                  parentId := (case parentId x of
                     None \<Rightarrow> Some (rootFolderId st) | Some q \<Rightarrow> Some q),
                  originalParentId := None\<rparr>
           else x)"
    proof (rule roundTrip_item)
      show "id' x \<in> roundTripFileIds st F \<or> id' x \<notin> trashFileClosure st [F]"
        using i3 by blast
      show "id' x \<in> roundTripFileIds st F \<Longrightarrow> originalParentId x = None"
        using assms(3) xin i4 by blast
    qed
  qed
  have st': "state (trashThenRestore F b) =
     Some (st\<lparr>folders :=
                 map (\<lambda>f. if id' f \<in> roundTripFolderIds st F
                          then f\<lparr>trashed := False,
                                 parentId := (case parentId f of
                                    None \<Rightarrow> Some (rootFolderId st) | Some q \<Rightarrow> Some q),
                                 originalParentId := None\<rparr>
                          else f) (folders st),
               files :=
                 map (\<lambda>x. if id' x \<in> roundTripFileIds st F
                          then x\<lparr>trashed := False,
                                 parentId := (case parentId x of
                                    None \<Rightarrow> Some (rootFolderId st) | Some q \<Rightarrow> Some q),
                                 originalParentId := None\<rparr>
                          else x) (files st)\<rparr>)"
    unfolding trashThenRestore_state[OF assms(1)] fo fi ..
  show ?thesis using st' i0 i1 i2 i3 i4 by blast
qed

theorem trash_restore_roundtrip_witness:
  "state (trashThenRestore 2 roundtrip_example) =
     Some (the (state roundtrip_example)\<lparr>folders :=
                 map (\<lambda>f. if id' f \<in> roundTripFolderIds (the (state roundtrip_example)) 2
                          then f\<lparr>trashed := False,
                                 parentId := (case parentId f of
                                    None \<Rightarrow> Some (rootFolderId (the (state roundtrip_example)))
                                  | Some q \<Rightarrow> Some q),
                                 originalParentId := None\<rparr>
                          else f) (folders (the (state roundtrip_example))),
               files :=
                 map (\<lambda>x. if id' x \<in> roundTripFileIds (the (state roundtrip_example)) 2
                          then x\<lparr>trashed := False,
                                 parentId := (case parentId x of
                                    None \<Rightarrow> Some (rootFolderId (the (state roundtrip_example)))
                                  | Some q \<Rightarrow> Some q),
                                 originalParentId := None\<rparr>
                          else x) (files (the (state roundtrip_example)))\<rparr>)
   \<and> map (\<lambda>f. (id' f, parentId f, trashed f, originalParentId f)) (foldersOf roundtrip_example)
      = [(1, None, False, None), (2, Some 1, False, None), (3, Some 2, False, None),
         (4, Some 2, True, None)]
   \<and> map (\<lambda>f. (id' f, parentId f, trashed f, originalParentId f))
        (foldersOf (trashThenRestore 2 roundtrip_example))
      = [(1, None, False, None), (2, Some 1, False, None), (3, Some 2, False, None),
         (4, Some 2, False, None)]
   \<and> map (\<lambda>f. (id' f, parentId f, trashed f, originalParentId f))
        (filesOf (trashThenRestore 2 roundtrip_example))
      = [(10, Some 2, False, None), (12, Some 4, False, None), (13, Some 1, False, None)]"
proof -
  have s: "state roundtrip_example = Some (the (state roundtrip_example))"
    by (simp add: roundtrip_example_def mkBrowser_def)
  have h1: "\<forall>f \<in> set (folders (the (state roundtrip_example))).
      id' f \<in> subtree (the (state roundtrip_example)) {2} \<longrightarrow> originalParentId f = None"
    by (simp add: roundtrip_example_def mkBrowser_def mkFolder_def)
  have h2: "\<forall>x \<in> set (files (the (state roundtrip_example))).
      id' x \<in> insert 2 (\<Union>p \<in> subtree (the (state roundtrip_example)) {2}.
                          afkids (the (state roundtrip_example)) p)
      \<longrightarrow> originalParentId x = None"
    by (simp add: roundtrip_example_def mkBrowser_def mkFile_def)
  note t = conjunct1[OF trash_restore_roundtrip[OF s h1 h2]]
  have a: "map (\<lambda>f. (id' f, parentId f, trashed f, originalParentId f)) (foldersOf roundtrip_example)
      = [(1, None, False, None), (2, Some 1, False, None), (3, Some 2, False, None),
         (4, Some 2, True, None)]" by code_simp
  have b: "map (\<lambda>f. (id' f, parentId f, trashed f, originalParentId f))
        (foldersOf (trashThenRestore 2 roundtrip_example))
      = [(1, None, False, None), (2, Some 1, False, None), (3, Some 2, False, None),
         (4, Some 2, False, None)]" by code_simp
  have c: "map (\<lambda>f. (id' f, parentId f, trashed f, originalParentId f))
        (filesOf (trashThenRestore 2 roundtrip_example))
      = [(10, Some 2, False, None), (12, Some 4, False, None), (13, Some 1, False, None)]"
    by code_simp
  show ?thesis using t a b c by blast
qed

text \<open>
  C2, as stated: moveToTrash marks every non-trashed descendant of a selected folder.
  It fails for a descendant that lies behind a folder already trashed. In the state
  reached by moving T to the trash and restoring X and its file, Docs holds the
  trashed folder T, T holds the folder X, not trashed, and X holds a file, not
  trashed; moving Docs to the trash marks Docs and leaves X and the file as they
  were.
\<close>

theorem moveToTrash_behind_trashed_counterexample:
  "map (\<lambda>f. (id' f, parentId f, trashed f, originalParentId f)) (foldersOf behind_trashed_example)
     = [(1, None, False, None), (2, Some 1, False, None), (3, Some 2, True, Some 2),
        (4, Some 3, False, None)]
   \<and> map (\<lambda>f. (id' f, parentId f, trashed f, originalParentId f)) (filesOf behind_trashed_example)
     = [(10, Some 4, False, None)]
   \<and> map (\<lambda>f. (id' f, parentId f, trashed f, originalParentId f))
       (foldersOf (handleMoveToTrashSelected True (behind_trashed_example\<lparr>selectedIds := [2]\<rparr>)))
     = [(1, None, False, None), (2, Some 1, True, Some 1), (3, Some 2, True, Some 2),
        (4, Some 3, False, None)]
   \<and> map (\<lambda>f. (id' f, parentId f, trashed f, originalParentId f))
       (filesOf (handleMoveToTrashSelected True (behind_trashed_example\<lparr>selectedIds := [2]\<rparr>)))
     = [(10, Some 4, False, None)]"
proof -
  have a: "map (\<lambda>f. (id' f, parentId f, trashed f, originalParentId f))
       (foldersOf behind_trashed_example)
     = [(1, None, False, None), (2, Some 1, False, None), (3, Some 2, True, Some 2),
        (4, Some 3, False, None)]" by code_simp
  have b: "map (\<lambda>f. (id' f, parentId f, trashed f, originalParentId f))
       (filesOf behind_trashed_example)
     = [(10, Some 4, False, None)]" by code_simp
  have c: "map (\<lambda>f. (id' f, parentId f, trashed f, originalParentId f))
       (foldersOf (handleMoveToTrashSelected True (behind_trashed_example\<lparr>selectedIds := [2]\<rparr>)))
     = [(1, None, False, None), (2, Some 1, True, Some 1), (3, Some 2, True, Some 2),
        (4, Some 3, False, None)]" by code_simp
  have d: "map (\<lambda>f. (id' f, parentId f, trashed f, originalParentId f))
       (filesOf (handleMoveToTrashSelected True (behind_trashed_example\<lparr>selectedIds := [2]\<rparr>)))
     = [(10, Some 4, False, None)]" by code_simp
  show ?thesis using a b c d by blast
qed

text \<open>
  C2, amended: the cascade goes down through folders that are not trashed only.
  moveToTrash marks exactly the closure of the selection: every selected folder or
  file that is not trashed and, recursively, every folder and file that is not trashed
  directly in a folder being marked. A marked item gets \<^verbatim>\<open>trashed = true\<close>, and its
  \<^verbatim>\<open>originalParentId\<close> becomes its \<^verbatim>\<open>parentId\<close> only when it was null; a set
  \<^verbatim>\<open>originalParentId\<close> is kept. Every other field and every item whose id is outside
  the closure is unchanged.
\<close>

theorem moveToTrash_marks_closure:
  assumes "state b = Some st"
  shows "state (handleMoveToTrashSelected True b) =
     Some (st\<lparr>folders :=
                 map (\<lambda>f. if id' f \<in> trashFolderClosure st (selectedIds b)
                          then f\<lparr>trashed := True,
                                 originalParentId := (case originalParentId f of
                                    None \<Rightarrow> parentId f | Some v \<Rightarrow> Some v)\<rparr>
                          else f) (folders st),
               files :=
                 map (\<lambda>x. if id' x \<in> trashFileClosure st (selectedIds b)
                          then x\<lparr>trashed := True,
                                 originalParentId := (case originalParentId x of
                                    None \<Rightarrow> parentId x | Some v \<Rightarrow> Some v)\<rparr>
                          else x) (files st)\<rparr>)"
  using assms by (rule moveToTrash_state)

theorem moveToTrash_marks_closure_witness:
  "state (handleMoveToTrashSelected True trash_example) =
     Some (the (state trash_example)\<lparr>folders :=
                 map (\<lambda>f. if id' f \<in> trashFolderClosure (the (state trash_example)) [2, 13]
                          then f\<lparr>trashed := True,
                                 originalParentId := (case originalParentId f of
                                    None \<Rightarrow> parentId f | Some v \<Rightarrow> Some v)\<rparr>
                          else f) (folders (the (state trash_example))),
               files :=
                 map (\<lambda>x. if id' x \<in> trashFileClosure (the (state trash_example)) [2, 13]
                          then x\<lparr>trashed := True,
                                 originalParentId := (case originalParentId x of
                                    None \<Rightarrow> parentId x | Some v \<Rightarrow> Some v)\<rparr>
                          else x) (files (the (state trash_example)))\<rparr>)
   \<and> map (\<lambda>f. (id' f, trashed f, originalParentId f))
        (foldersOf (handleMoveToTrashSelected True trash_example))
      = [(1, False, None), (2, True, Some 1), (3, True, Some 2), (4, True, Some 2), (5, False, None)]
   \<and> map (\<lambda>f. (id' f, trashed f, originalParentId f))
        (filesOf (handleMoveToTrashSelected True trash_example))
      = [(10, True, Some 2), (11, True, Some 7), (12, True, Some 4), (13, True, Some 5),
         (14, False, None)]"
proof -
  have s: "state trash_example = Some (the (state trash_example))"
    by (simp add: trash_example_def mkBrowser_def)
  have sel: "selectedIds trash_example = [2, 13]"
    by (simp add: trash_example_def mkBrowser_def)
  note t = moveToTrash_marks_closure[OF s, unfolded sel]
  have a: "map (\<lambda>f. (id' f, trashed f, originalParentId f))
        (foldersOf (handleMoveToTrashSelected True trash_example))
      = [(1, False, None), (2, True, Some 1), (3, True, Some 2), (4, True, Some 2), (5, False, None)]"
    by code_simp
  have b: "map (\<lambda>f. (id' f, trashed f, originalParentId f))
        (filesOf (handleMoveToTrashSelected True trash_example))
      = [(10, True, Some 2), (11, True, Some 7), (12, True, Some 4), (13, True, Some 5),
         (14, False, None)]"
    by code_simp
  show ?thesis using t a b by blast
qed

text \<open>
  C3. permanentDelete removes every selected folder, every folder reachable from one
  through \<^verbatim>\<open>parentId\<close> links whatever its \<^verbatim>\<open>trashed\<close>, every file whose \<^verbatim>\<open>parentId\<close> is
  one of these folders and every selected file, and nothing else; afterwards no
  remaining folder or file has the id of a removed folder as its \<^verbatim>\<open>parentId\<close>.
\<close>

theorem permanentDelete_removes_subtree:
  assumes "state b = Some st"
  shows "state (handlePermanentDeleteSelected True b) =
     Some (st\<lparr>folders := filter (\<lambda>f. id' f \<notin> deletedFolderIds st (selectedIds b)) (folders st),
               files := filter (\<lambda>x. id' x \<notin> deletedFileIds st (selectedIds b)) (files st)\<rparr>)
   \<and> (\<forall>g \<in> set (foldersOf (handlePermanentDeleteSelected True b)).
         \<forall>p \<in> deletedFolderIds st (selectedIds b). parentId g \<noteq> Some p)
   \<and> (\<forall>x \<in> set (filesOf (handlePermanentDeleteSelected True b)).
         \<forall>p \<in> deletedFolderIds st (selectedIds b). parentId x \<noteq> Some p)
   \<and> (\<forall>F \<in> selectedAll (folders st) (selectedIds b).
         subtree st {F} \<subseteq> deletedFolderIds st (selectedIds b))"
proof -
  let ?D = "deletedFolderIds st (selectedIds b)"
  let ?X = "deletedFileIds st (selectedIds b)"
  have st': "state (handlePermanentDeleteSelected True b) =
     Some (st\<lparr>folders := filter (\<lambda>f. id' f \<notin> ?D) (folders st),
               files := filter (\<lambda>x. id' x \<notin> ?X) (files st)\<rparr>)"
    using assms by (rule permanentDelete_state)
  have f: "\<forall>g \<in> set (foldersOf (handlePermanentDeleteSelected True b)). \<forall>p \<in> ?D. parentId g \<noteq> Some p"
  proof (intro ballI notI)
    fix g p assume g: "g \<in> set (foldersOf (handlePermanentDeleteSelected True b))"
      and p: "p \<in> ?D" and e: "parentId g = Some p"
    from g have gin: "g \<in> set (folders st)" and gout: "id' g \<notin> ?D"
      by (auto simp: foldersOf_def st')
    from p gin e have "id' g \<in> ?D" unfolding deletedFolderIds_def by (rule subtree.child)
    with gout show False by simp
  qed
  have x: "\<forall>x \<in> set (filesOf (handlePermanentDeleteSelected True b)). \<forall>p \<in> ?D. parentId x \<noteq> Some p"
  proof (intro ballI notI)
    fix x p assume g: "x \<in> set (filesOf (handlePermanentDeleteSelected True b))"
      and p: "p \<in> ?D" and e: "parentId x = Some p"
    from g have gin: "x \<in> set (files st)" and gout: "id' x \<notin> ?X"
      by (auto simp: filesOf_def st')
    from p gin e have "id' x \<in> ?X" unfolding deletedFileIds_def afkids_def by auto
    with gout show False by simp
  qed
  have s: "\<forall>F \<in> selectedAll (folders st) (selectedIds b). subtree st {F} \<subseteq> ?D"
    unfolding deletedFolderIds_def by (auto intro: subtree_mono)
  show ?thesis using st' f x s by blast
qed

theorem permanentDelete_removes_subtree_witness:
  "state (handlePermanentDeleteSelected True (trash_example\<lparr>selectedIds := [2, 14]\<rparr>)) =
     Some (the (state trash_example)
        \<lparr>folders := filter (\<lambda>f. id' f \<notin> deletedFolderIds (the (state trash_example)) [2, 14])
                      (folders (the (state trash_example))),
         files := filter (\<lambda>x. id' x \<notin> deletedFileIds (the (state trash_example)) [2, 14])
                      (files (the (state trash_example)))\<rparr>)
   \<and> map id' (foldersOf (handlePermanentDeleteSelected True (trash_example\<lparr>selectedIds := [2, 14]\<rparr>)))
      = [1, 5]
   \<and> map id' (filesOf (handlePermanentDeleteSelected True (trash_example\<lparr>selectedIds := [2, 14]\<rparr>)))
      = [13]"
proof -
  have s: "state (trash_example\<lparr>selectedIds := [2, 14]\<rparr>) = Some (the (state trash_example))"
    by (simp add: trash_example_def mkBrowser_def)
  have sel: "selectedIds (trash_example\<lparr>selectedIds := [2, 14]\<rparr>) = [2, 14]"
    by simp
  note t = conjunct1[OF permanentDelete_removes_subtree[OF s], unfolded sel]
  have a: "map id' (foldersOf (handlePermanentDeleteSelected True (trash_example\<lparr>selectedIds := [2, 14]\<rparr>)))
      = [1, 5]"
    by code_simp
  have b: "map id' (filesOf (handlePermanentDeleteSelected True (trash_example\<lparr>selectedIds := [2, 14]\<rparr>)))
      = [13]"
    by code_simp
  show ?thesis using t a b by blast
qed

text \<open>
  C4, as stated: in every state emptyTrash leaves the local state that permanentDelete
  leaves on the ids of all trashed folders and files. It fails in the state reached by
  moving Docs to the trash and restoring its folder Sub alone: Sub is live under the
  trashed Docs; emptyTrash drops the trashed items only and keeps Sub, permanentDelete
  of the trashed ids removes Sub with Docs.
\<close>

theorem emptyTrash_differs_counterexample:
  "map id' (foldersOf orphan_example) = [1, 2, 3]
   \<and> map trashed (foldersOf orphan_example) = [False, True, False]
   \<and> map parentId (foldersOf orphan_example) = [None, Some 1, Some 2]
   \<and> foldersToDelete orphan_example @ filesToDelete orphan_example = [2, 10]
   \<and> map id' (foldersOf (handleEmptyTrash True orphan_example)) = [1, 3]
   \<and> map id' (foldersOf (handlePermanentDeleteSelected True
        (orphan_example\<lparr>selectedIds := foldersToDelete orphan_example @ filesToDelete orphan_example\<rparr>)))
      = [1]
   \<and> state (handleEmptyTrash True orphan_example)
      \<noteq> state (handlePermanentDeleteSelected True
        (orphan_example\<lparr>selectedIds := foldersToDelete orphan_example @ filesToDelete orphan_example\<rparr>))"
proof -
  have a: "map id' (foldersOf orphan_example) = [1, 2, 3]" by code_simp
  have b: "map trashed (foldersOf orphan_example) = [False, True, False]" by code_simp
  have c: "map parentId (foldersOf orphan_example) = [None, Some 1, Some 2]" by code_simp
  have d: "foldersToDelete orphan_example @ filesToDelete orphan_example = [2, 10]" by code_simp
  have e: "map id' (foldersOf (handleEmptyTrash True orphan_example)) = [1, 3]" by code_simp
  have f: "map id' (foldersOf (handlePermanentDeleteSelected True
        (orphan_example\<lparr>selectedIds := foldersToDelete orphan_example @ filesToDelete orphan_example\<rparr>)))
      = [1]" by code_simp
  have g: "state (handleEmptyTrash True orphan_example)
      \<noteq> state (handlePermanentDeleteSelected True
        (orphan_example\<lparr>selectedIds := foldersToDelete orphan_example @ filesToDelete orphan_example\<rparr>))"
  proof
    assume "state (handleEmptyTrash True orphan_example)
      = state (handlePermanentDeleteSelected True
        (orphan_example\<lparr>selectedIds := foldersToDelete orphan_example @ filesToDelete orphan_example\<rparr>))"
    then have "foldersOf (handleEmptyTrash True orphan_example)
      = foldersOf (handlePermanentDeleteSelected True
        (orphan_example\<lparr>selectedIds := foldersToDelete orphan_example @ filesToDelete orphan_example\<rparr>))"
      unfolding foldersOf_def by (rule arg_cong)
    then have "map id' (foldersOf (handleEmptyTrash True orphan_example))
      = map id' (foldersOf (handlePermanentDeleteSelected True
        (orphan_example\<lparr>selectedIds := foldersToDelete orphan_example @ filesToDelete orphan_example\<rparr>)))"
      by (rule arg_cong)
    then show False unfolding e f by simp
  qed
  show ?thesis using a b c d e f g by blast
qed

text \<open>
  C4, amended: in every state where the items directly in a trashed folder are all
  trashed and no item that is not trashed shares its id with a trashed item, emptyTrash
  and permanentDelete of the ids of all trashed folders and files leave the same
  local state (given the same answer to the confirmation); and when nothing is
  trashed emptyTrash leaves the component as it is.
\<close>

theorem emptyTrash_is_permanentDelete_of_trashed:
  assumes "trashed_closed_down b" and "trashed_ids_apart b"
  shows "state (handleEmptyTrash confirmed b) =
         state (handlePermanentDeleteSelected confirmed
                  (b\<lparr>selectedIds := foldersToDelete b @ filesToDelete b\<rparr>))
       \<and> (\<not> hasTrash b \<longrightarrow> handleEmptyTrash confirmed b = b)"
proof -
  have second: "\<not> hasTrash b \<longrightarrow> handleEmptyTrash confirmed b = b"
    by (simp add: handleEmptyTrash_def split: option.splits)
  let ?sel = "foldersToDelete b @ filesToDelete b"
  let ?b' = "b\<lparr>selectedIds := ?sel\<rparr>"
  have first: "state (handleEmptyTrash confirmed b) = state (handlePermanentDeleteSelected confirmed ?b')"
  proof (cases "state b")
    case None
    then show ?thesis by (simp add: handleEmptyTrash_def handlePermanentDeleteSelected_def)
  next
    case (Some st)
    show ?thesis
    proof (cases "hasTrash b")
      case False
      then have "?sel = []" by (rule no_trash_no_ids)
      then show ?thesis using False Some
        by (simp add: handleEmptyTrash_def handlePermanentDeleteSelected_def)
    next
      case True
      note ht = True
      show ?thesis
      proof (cases confirmed)
        case False
        then show ?thesis using Some
          by (simp add: handleEmptyTrash_def handlePermanentDeleteSelected_def)
      next
        case True
        let ?D = "deletedFolderIds st ?sel" and ?X = "deletedFileIds st ?sel"
        have s': "state ?b' = Some st" using Some by simp
        have pd: "state (handlePermanentDeleteSelected True ?b') =
            Some (st\<lparr>folders := filter (\<lambda>f. id' f \<notin> ?D) (folders st),
                 files := filter (\<lambda>x. id' x \<notin> ?X) (files st)\<rparr>)"
          using permanentDelete_state[OF s'] by simp
        have et: "state (handleEmptyTrash True b) =
            Some (st\<lparr>folders := filter (\<lambda>f. \<not> trashed f) (folders st),
                 files := filter (\<lambda>x. \<not> trashed x) (files st)\<rparr>)"
          using ht Some by (simp add: handleEmptyTrash_def)
        have f: "filter (\<lambda>f. id' f \<notin> ?D) (folders st) = filter (\<lambda>f. \<not> trashed f) (folders st)"
          by (rule filter_cong_set) (rule deleted_folder_iff_trashed[OF assms Some])
        have x: "filter (\<lambda>x. id' x \<notin> ?X) (files st) = filter (\<lambda>x. \<not> trashed x) (files st)"
          by (rule filter_cong_set) (rule deleted_file_iff_trashed[OF assms Some])
        show ?thesis using pd et f x True by simp
      qed
    qed
  qed
  show ?thesis using first second by blast
qed

theorem emptyTrash_is_permanentDelete_of_trashed_witness:
  "trashed_closed_down trash_example \<and> trashed_ids_apart trash_example
   \<and> hasTrash trash_example
   \<and> state (handleEmptyTrash True trash_example) =
       state (handlePermanentDeleteSelected True
                (trash_example\<lparr>selectedIds := foldersToDelete trash_example @ filesToDelete trash_example\<rparr>))
   \<and> map id' (foldersOf (handleEmptyTrash True trash_example)) = [1, 2, 3, 5]
   \<and> map id' (filesOf (handleEmptyTrash True trash_example)) = [10, 11, 13, 14]"
proof -
  have a: "trashed_closed_down trash_example" by code_simp
  have b: "trashed_ids_apart trash_example" by code_simp
  have c: "hasTrash trash_example" by code_simp
  note t = conjunct1[OF emptyTrash_is_permanentDelete_of_trashed[OF a b, of True]]
  have d: "map id' (foldersOf (handleEmptyTrash True trash_example)) = [1, 2, 3, 5]" by code_simp
  have e: "map id' (filesOf (handleEmptyTrash True trash_example)) = [10, 11, 13, 14]" by code_simp
  show ?thesis using a b c t d e by blast
qed

text \<open>
  C5, as stated: after every sequence of moveToTrash and restore from a state with the
  tree invariants, no item that is not trashed has a trashed parent. It fails: from
  root, Docs (2) under root, Sub (3) under Docs and a file in Docs, nothing trashed
  and no \<^verbatim>\<open>originalParentId\<close> set, moving Docs to the trash and then restoring Sub
  alone leaves Sub not trashed with \<^verbatim>\<open>parentId\<close> 2, and Docs trashed.
\<close>

theorem restore_child_alone_counterexample:
  "rootFolderId (the (state family_example)) = 1
   \<and> map (\<lambda>f. (id' f, parentId f, trashed f, originalParentId f)) (foldersOf family_example)
      = [(1, None, False, None), (2, Some 1, False, None), (3, Some 2, False, None)]
   \<and> map (\<lambda>f. (id' f, parentId f, trashed f, originalParentId f)) (filesOf family_example)
      = [(10, Some 2, False, None)]
   \<and> live_parents_ok (the (state family_example))
   \<and> map (\<lambda>f. (id' f, parentId f, trashed f))
        (foldersOf (run [MoveToTrash [2], Restore [3]] family_example))
      = [(1, None, False), (2, Some 1, True), (3, Some 2, False)]
   \<and> \<not> live_parents_ok (the (state (run [MoveToTrash [2], Restore [3]] family_example)))"
proof -
  have r: "rootFolderId (the (state family_example)) = 1"
    by (simp add: family_example_def mkBrowser_def)
  have f: "map (\<lambda>f. (id' f, parentId f, trashed f, originalParentId f)) (foldersOf family_example)
      = [(1, None, False, None), (2, Some 1, False, None), (3, Some 2, False, None)]"
    by (simp add: family_example_def mkBrowser_def mkFolder_def foldersOf_def)
  have x: "map (\<lambda>f. (id' f, parentId f, trashed f, originalParentId f)) (filesOf family_example)
      = [(10, Some 2, False, None)]"
    by (simp add: family_example_def mkBrowser_def mkFile_def filesOf_def)
  have a: "live_parents_ok (the (state family_example))" by code_simp
  have b: "map (\<lambda>f. (id' f, parentId f, trashed f))
        (foldersOf (run [MoveToTrash [2], Restore [3]] family_example))
      = [(1, None, False), (2, Some 1, True), (3, Some 2, False)]" by code_simp
  have c: "\<not> live_parents_ok (the (state (run [MoveToTrash [2], Restore [3]] family_example)))"
    by code_simp
  show ?thesis using r f x a b c by blast
qed

text \<open>
  C5, amended: the property holds along every sequence of moveToTrash and restore in
  which every restore is admissible, that is, every folder and file the restore
  brings back (the selected trashed items and the trashed items its cascade reaches)
  goes back to a folder, \<^verbatim>\<open>originalParentId ?? parentId ?? rootFolderId\<close>, that is not
  trashed or is brought back by the same restore. From a state in which no item that
  is not trashed has a trashed folder as parent, such a sequence ends in a state
  where no item that is not trashed has a trashed folder as parent. Of the tree
  invariants only this one is assumed of the start.
\<close>

theorem live_parents_along_valid_runs:
  assumes "state b = Some st" and "live_parents_ok st" and "run_ok ops b"
  shows "\<exists>st'. state (run ops b) = Some st' \<and> live_parents_ok st'"
  using assms
proof (induction ops arbitrary: b st)
  case Nil
  then show ?case by simp
next
  case (Cons op ops)
  from Cons.prems have ok: "operation_ok op b" and rest: "run_ok ops (apply_operation op b)"
    by simp_all
  from operation_preserves[OF Cons.prems(1) Cons.prems(2) ok]
  obtain st1 where st1: "state (apply_operation op b) = Some st1" "live_parents_ok st1" by blast
  from Cons.IH[OF st1 rest] show ?case by simp
qed

theorem live_parents_along_valid_runs_witness:
  "live_parents_ok (the (state family_example))
   \<and> run_ok [MoveToTrash [3, 10], Restore [10], MoveToTrash [2], Restore [2]] family_example
   \<and> (\<exists>st'. state (run [MoveToTrash [3, 10], Restore [10], MoveToTrash [2], Restore [2]]
                      family_example) = Some st'
            \<and> live_parents_ok st')
   \<and> map trashed (foldersOf (run [MoveToTrash [3, 10], Restore [10], MoveToTrash [2]] family_example))
      = [False, True, True]
   \<and> map trashed (foldersOf (run [MoveToTrash [3, 10], Restore [10], MoveToTrash [2], Restore [2]]
        family_example)) = [False, False, False]
   \<and> \<not> run_ok [MoveToTrash [2], Restore [3]] family_example
   \<and> live_parents_ok (the (state stale_example))
   \<and> \<not> run_ok [Restore [10]] stale_example
   \<and> run_ok [Restore [3, 10]] stale_example
   \<and> map (\<lambda>f. (id' f, parentId f, trashed f)) (filesOf (run [Restore [3, 10]] stale_example))
      = [(10, Some 3, False)]"
proof -
  have s: "state family_example = Some (the (state family_example))"
    by (simp add: family_example_def mkBrowser_def)
  have a: "live_parents_ok (the (state family_example))" by code_simp
  have b: "run_ok [MoveToTrash [3, 10], Restore [10], MoveToTrash [2], Restore [2]] family_example"
    by code_simp
  note t = live_parents_along_valid_runs[OF s a b]
  have c: "map trashed (foldersOf (run [MoveToTrash [3, 10], Restore [10], MoveToTrash [2]] family_example))
      = [False, True, True]" by code_simp
  have d: "map trashed (foldersOf (run [MoveToTrash [3, 10], Restore [10], MoveToTrash [2], Restore [2]]
        family_example)) = [False, False, False]" by code_simp
  have e: "\<not> run_ok [MoveToTrash [2], Restore [3]] family_example" by code_simp
  have f: "live_parents_ok (the (state stale_example))" by code_simp
  have g: "\<not> run_ok [Restore [10]] stale_example" by code_simp
  have h: "run_ok [Restore [3, 10]] stale_example" by code_simp
  have i: "map (\<lambda>f. (id' f, parentId f, trashed f)) (filesOf (run [Restore [3, 10]] stale_example))
      = [(10, Some 3, False)]" by code_simp
  show ?thesis using a b t c d e f g h i by blast
qed

text \<open>
  C6, as stated: the folder partition of the view is sorted by the current
  \<^verbatim>\<open>sortBy\<close>/\<^verbatim>\<open>sortDir\<close>. It fails: with the sort by name, ascending, the folders b
  and a are shown as b, a, the order they have in \<^verbatim>\<open>state.folders\<close>, and flipping the
  direction shows them in the same order.
\<close>

theorem visibleFolders_sorted_counterexample:
  "sortBy browser_folders_ba = ByName \<and> sortDir browser_folders_ba = Asc
   \<and> map name (visibleFolders browser_folders_ba) = [js ''b'', js ''a'']
   \<and> map name (visibleFolders (browser_folders_ba\<lparr>sortDir := Desc\<rparr>)) = [js ''b'', js ''a'']
   \<and> \<not> sorted_wrt (\<lambda>x y. asciiLower (name x) \<le> asciiLower (name y))
         (visibleFolders browser_folders_ba)"
  by (simp add: visibleFolders_def foldersOf_def browser_folders_ba_def mkBrowser_def
      mkFolder_def asciiLower_def js_def)

text \<open>
  With a \<^verbatim>\<open>modifiedAt\<close> that is not a date the comparator by \<^verbatim>\<open>modifiedAt\<close> is not an
  order: it answers 0 for the file of March against the unparseable one and for the
  unparseable one against the file of January, and 1 for March against January. What
  \<^verbatim>\<open>sort\<close> returns is then left to the implementation, so the order of the files by
  \<^verbatim>\<open>modifiedAt\<close> is stated for files whose \<^verbatim>\<open>modifiedAt\<close> parses.
\<close>

lemma compareFiles_unparseable_date:
  "map modifiedAt (filesOf browser_bad_date)
     = [js ''2024-03-01T00:00:00Z'', js ''yesterday'', js ''2024-01-01T00:00:00Z'']
   \<and> demoTime (js ''yesterday'') = None
   \<and> compareFiles asciiLower demoTime ByModifiedAt Asc
        (filesOf browser_bad_date ! 0) (filesOf browser_bad_date ! 1) = 0
   \<and> compareFiles asciiLower demoTime ByModifiedAt Asc
        (filesOf browser_bad_date ! 1) (filesOf browser_bad_date ! 2) = 0
   \<and> compareFiles asciiLower demoTime ByModifiedAt Asc
        (filesOf browser_bad_date ! 0) (filesOf browser_bad_date ! 2) = 1"
  by (simp add: browser_bad_date_def mkBrowser_def mkFile_def filesOf_def demoTime_def
      compareFiles_def lessNumber_def js_def)

text \<open>
  C6, amended: only the file partition is sorted. The visible files are in the order
  of the current \<^verbatim>\<open>sortBy\<close>/\<^verbatim>\<open>sortDir\<close>: by lower-cased name, ascending or
  descending, or by the time of \<^verbatim>\<open>modifiedAt\<close>, ascending or descending, the latter
  provided the \<^verbatim>\<open>modifiedAt\<close> of every visible file parses as a date; and another sort
  setting shows the same files, in another order. The visible folders do not depend
  on the sort setting (a folder has no \<^verbatim>\<open>modifiedAt\<close>): they are the folders of the
  state that pass the section's filter, in the order of \<^verbatim>\<open>state.folders\<close>. Every
  folder is rendered before every file.
\<close>

theorem view_files_sorted_folders_in_state_order:
  assumes "sortBy b = ByModifiedAt \<longrightarrow>
             (\<forall>x \<in> set (visibleFiles lower getTime b). getTime (modifiedAt x) \<noteq> None)"
  shows "sorted_wrt
           (case sortBy b of
              ByName \<Rightarrow> (\<lambda>x y. if sortDir b = Asc then lower (name x) \<le> lower (name y)
                                 else lower (name y) \<le> lower (name x))
            | ByModifiedAt \<Rightarrow>
                (\<lambda>x y. if sortDir b = Asc
                        then the (getTime (modifiedAt x)) \<le> the (getTime (modifiedAt y))
                        else the (getTime (modifiedAt y)) \<le> the (getTime (modifiedAt x))))
           (visibleFiles lower getTime b)
         \<and> mset (visibleFiles lower getTime (b\<lparr>sortBy := sb, sortDir := sd\<rparr>))
             = mset (visibleFiles lower getTime b)
         \<and> visibleFolders (b\<lparr>sortBy := sb, sortDir := sd\<rparr>) = visibleFolders b
         \<and> visibleFolders b = filter (\<lambda>f. f \<in> set (visibleFolders b)) (foldersOf b)
         \<and> set (visibleFolders b)
             = {f \<in> set (foldersOf b).
                  if section' b = MyDrive then \<not> trashed f \<and> parentId f = currentFolderId b
                  else section' b = Trash \<and> trashed f}
         \<and> takeWhile isl (rendered lower getTime b) = map Inl (visibleFolders b)
         \<and> dropWhile isl (rendered lower getTime b) = map Inr (visibleFiles lower getTime b)"
proof -
  obtain xs where xs: "\<And>sb sd. visibleFiles lower getTime (b\<lparr>sortBy := sb, sortDir := sd\<rparr>)
                  = js_sort (compareFiles lower getTime sb sd) xs"
    using visibleFiles_is_sort[of lower getTime b] by blast
  have cur: "visibleFiles lower getTime b
               = js_sort (compareFiles lower getTime (sortBy b) (sortDir b)) xs"
    using xs[where sb = "sortBy b" and sd = "sortDir b"] by simp
  have "sorted_wrt
           (case sortBy b of
              ByName \<Rightarrow> (\<lambda>x y. if sortDir b = Asc then lower (name x) \<le> lower (name y)
                                 else lower (name y) \<le> lower (name x))
            | ByModifiedAt \<Rightarrow>
                (\<lambda>x y. if sortDir b = Asc
                        then the (getTime (modifiedAt x)) \<le> the (getTime (modifiedAt y))
                        else the (getTime (modifiedAt y)) \<le> the (getTime (modifiedAt x))))
           (visibleFiles lower getTime b)"
  proof (cases "sortBy b")
    case ByName
    then show ?thesis using sorted_by_name[where sd = "sortDir b" and lower = lower and g = getTime and xs = xs]
      by (simp add: cur)
  next
    case ByModifiedAt
    with assms have "\<forall>x \<in> set xs. getTime (modifiedAt x) \<noteq> None"
      by (simp add: cur set_js_sort)
    from sorted_by_time[OF this, where sd = "sortDir b" and lower = lower] ByModifiedAt
    show ?thesis
      by (simp add: cur)
  qed
  moreover have "mset (visibleFiles lower getTime (b\<lparr>sortBy := sb, sortDir := sd\<rparr>))
             = mset (visibleFiles lower getTime b)"
    by (simp add: xs cur mset_js_sort)
  moreover have "visibleFolders (b\<lparr>sortBy := sb, sortDir := sd\<rparr>) = visibleFolders b"
    by (simp add: visibleFolders_def foldersOf_def)
  moreover have "visibleFolders b = filter (\<lambda>f. f \<in> set (visibleFolders b)) (foldersOf b)"
    by (auto simp: visibleFolders_def intro: filter_cong)
  moreover have "set (visibleFolders b)
             = {f \<in> set (foldersOf b).
                  if section' b = MyDrive then \<not> trashed f \<and> parentId f = currentFolderId b
                  else section' b = Trash \<and> trashed f}"
    by (auto simp: visibleFolders_def)
  moreover have "takeWhile isl (rendered lower getTime b) = map Inl (visibleFolders b)"
    by (simp add: rendered_def takeWhile_isl_rendered)
  moreover have "dropWhile isl (rendered lower getTime b) = map Inr (visibleFiles lower getTime b)"
    by (simp add: rendered_def dropWhile_isl_rendered)
  ultimately show ?thesis by blast
qed

theorem view_files_sorted_folders_in_state_order_witness:
  "sortBy browser_dates = ByModifiedAt \<and> sortDir browser_dates = Asc
   \<and> map (\<lambda>x. demoTime (modifiedAt x)) (visibleFiles asciiLower demoTime browser_dates)
       = [Some 1704067200000, Some 1706745600000, Some 1709251200000]
   \<and> map name (filesOf browser_dates) = [js ''mar'', js ''jan'', js ''feb'']
   \<and> map name (visibleFiles asciiLower demoTime browser_dates) = [js ''jan'', js ''feb'', js ''mar'']
   \<and> map name (visibleFiles asciiLower demoTime (browser_dates\<lparr>sortDir := Desc\<rparr>))
       = [js ''mar'', js ''feb'', js ''jan'']
   \<and> map name (visibleFiles asciiLower demoTime (browser_dates\<lparr>sortBy := ByName\<rparr>))
       = [js ''feb'', js ''jan'', js ''mar'']
   \<and> sorted_wrt (\<lambda>x y. the (demoTime (modifiedAt x)) \<le> the (demoTime (modifiedAt y)))
       (visibleFiles asciiLower demoTime browser_dates)
   \<and> mset (visibleFiles asciiLower demoTime (browser_dates\<lparr>sortBy := ByName, sortDir := Desc\<rparr>))
       = mset (visibleFiles asciiLower demoTime browser_dates)
   \<and> takeWhile isl (rendered asciiLower demoTime browser_dates)
       = map Inl (visibleFolders browser_dates)"
proof -
  have a: "sortBy browser_dates = ByModifiedAt" "sortDir browser_dates = Asc"
    by (simp_all add: browser_dates_def mkBrowser_def)
  have v: "visibleFiles asciiLower demoTime browser_dates
             = [filesOf browser_dates ! 1, filesOf browser_dates ! 2, filesOf browser_dates ! 0]"
    by (simp add: visibleFiles_def browser_dates_def mkBrowser_def mkFile_def filesOf_def
        trim_def js_sort_def compareFiles_def lessNumber_def demoTime_def js_def)
  have f: "filesOf browser_dates
             = [(mkFile 1 ''mar'' (Some 1))\<lparr>modifiedAt := js ''2024-03-01T00:00:00Z''\<rparr>,
                (mkFile 2 ''jan'' (Some 1))\<lparr>modifiedAt := js ''2024-01-01T00:00:00Z''\<rparr>,
                (mkFile 3 ''feb'' (Some 1))\<lparr>modifiedAt := js ''2024-02-01T00:00:00Z''\<rparr>]"
    by (simp add: browser_dates_def mkBrowser_def filesOf_def)
  have t: "map (\<lambda>x. demoTime (modifiedAt x)) (visibleFiles asciiLower demoTime browser_dates)
       = [Some 1704067200000, Some 1706745600000, Some 1709251200000]"
    by (simp only: v f) (simp add: mkFile_def demoTime_def js_def)
  have h: "sortBy browser_dates = ByModifiedAt \<longrightarrow>
             (\<forall>x \<in> set (visibleFiles asciiLower demoTime browser_dates).
                demoTime (modifiedAt x) \<noteq> None)"
    using t by (simp only: v f) simp
  note th = view_files_sorted_folders_in_state_order[OF h, where sb = ByName and sd = Desc]
  have n0: "map name (filesOf browser_dates) = [js ''mar'', js ''jan'', js ''feb'']"
    by (simp add: f mkFile_def)
  have n1: "map name (visibleFiles asciiLower demoTime browser_dates)
              = [js ''jan'', js ''feb'', js ''mar'']"
    by (simp only: v f) (simp add: mkFile_def)
  have n2: "map name (visibleFiles asciiLower demoTime (browser_dates\<lparr>sortDir := Desc\<rparr>))
       = [js ''mar'', js ''feb'', js ''jan'']"
    by (simp add: visibleFiles_def browser_dates_def mkBrowser_def mkFile_def filesOf_def
        trim_def js_sort_def compareFiles_def lessNumber_def demoTime_def js_def)
  have n3: "map name (visibleFiles asciiLower demoTime (browser_dates\<lparr>sortBy := ByName\<rparr>))
       = [js ''feb'', js ''jan'', js ''mar'']"
    by (simp add: visibleFiles_def browser_dates_def mkBrowser_def mkFile_def filesOf_def
        trim_def js_sort_def compareFiles_def asciiLower_def js_def)
  show ?thesis using a t n0 n1 n2 n3 th by simp
qed

text \<open>
  C7. Sorting files by name is case-insensitive and stable, for every \<^verbatim>\<open>toLowerCase\<close>
  that maps A and a to a and b to b. The files named b, A, a (in this order) come out
  of the ascending name sort as A, a, b, with A still before a; the files named
  b, a, A come out as a, A, b, with a still before A. In general, for either
  direction, the files whose lower-cased name is a given \<open>k\<close> stand in the sorted list
  in the order they had in the input, the sorted list holds the same files as the
  input, and it is ordered by lower-cased name, upwards for the ascending sort and
  downwards for the descending one.
\<close>

theorem name_sort_case_insensitive_stable:
  assumes "lower (js ''A'') = js ''a''" and "lower (js ''a'') = js ''a''"
    and "lower (js ''b'') = js ''b''"
  shows "map name (visibleFiles lower getTime browser_bAa) = [js ''A'', js ''a'', js ''b'']
   \<and> map name (visibleFiles lower getTime browser_baA) = [js ''a'', js ''A'', js ''b'']
   \<and> filter (\<lambda>x. lower (name x) = k) (js_sort (compareFiles lower getTime ByName sd) xs)
       = filter (\<lambda>x. lower (name x) = k) xs
   \<and> mset (js_sort (compareFiles lower getTime ByName sd) xs) = mset xs
   \<and> sorted_wrt (\<lambda>x y. lower (name x) \<le> lower (name y))
       (js_sort (compareFiles lower getTime ByName Asc) xs)
   \<and> sorted_wrt (\<lambda>x y. lower (name y) \<le> lower (name x))
       (js_sort (compareFiles lower getTime ByName Desc) xs)"
proof (intro conjI)
  have lt: "js ''a'' < js ''b''" "\<not> js ''b'' < js ''a''" by (simp_all add: js_def)
  show "map name (visibleFiles lower getTime browser_bAa) = [js ''A'', js ''a'', js ''b'']"
    using assms lt
    by (simp add: visibleFiles_def browser_bAa_def mkBrowser_def mkFile_def filesOf_def
        trim_def js_sort_def compareFiles_def Let_def)
  show "map name (visibleFiles lower getTime browser_baA) = [js ''a'', js ''A'', js ''b'']"
    using assms lt
    by (simp add: visibleFiles_def browser_baA_def mkBrowser_def mkFile_def filesOf_def
        trim_def js_sort_def compareFiles_def Let_def)
  show "filter (\<lambda>x. lower (name x) = k) (js_sort (compareFiles lower getTime ByName sd) xs)
       = filter (\<lambda>x. lower (name x) = k) xs"
    by (rule filter_js_sort) (auto simp: compareFiles_def)
  show "mset (js_sort (compareFiles lower getTime ByName sd) xs) = mset xs"
    by (rule mset_js_sort)
  show "sorted_wrt (\<lambda>x y. lower (name x) \<le> lower (name y))
       (js_sort (compareFiles lower getTime ByName Asc) xs)"
    using sorted_by_name[where sd = Asc and lower = lower and g = getTime and xs = xs] by simp
  show "sorted_wrt (\<lambda>x y. lower (name y) \<le> lower (name x))
       (js_sort (compareFiles lower getTime ByName Desc) xs)"
    using sorted_by_name[where sd = Desc and lower = lower and g = getTime and xs = xs] by simp
qed

theorem name_sort_case_insensitive_stable_witness:
  "asciiLower (js ''A'') = js ''a'' \<and> asciiLower (js ''a'') = js ''a''
   \<and> asciiLower (js ''b'') = js ''b''
   \<and> map name (visibleFiles asciiLower demoTime browser_bAa) = [js ''A'', js ''a'', js ''b'']
   \<and> map name (visibleFiles asciiLower demoTime browser_baA) = [js ''a'', js ''A'', js ''b'']
   \<and> map name (filter (\<lambda>x. asciiLower (name x) = js ''a'')
        (js_sort (compareFiles asciiLower demoTime ByName Desc) (filesOf browser_baA)))
       = [js ''a'', js ''A'']
   \<and> map name (js_sort (compareFiles asciiLower demoTime ByName Desc) (filesOf browser_baA))
       = [js ''b'', js ''a'', js ''A'']"
proof -
  have a: "asciiLower (js ''A'') = js ''a''" "asciiLower (js ''a'') = js ''a''"
    "asciiLower (js ''b'') = js ''b''"
    by (simp_all add: asciiLower_def js_def)
  note th = name_sort_case_insensitive_stable[OF a, of demoTime "js ''a''" Desc
      "filesOf browser_baA"]
  have f: "map name (filter (\<lambda>x. asciiLower (name x) = js ''a'') (filesOf browser_baA))
             = [js ''a'', js ''A'']"
    by (simp add: browser_baA_def mkBrowser_def mkFile_def filesOf_def asciiLower_def js_def)
  have d: "map name (js_sort (compareFiles asciiLower demoTime ByName Desc) (filesOf browser_baA))
       = [js ''b'', js ''a'', js ''A'']"
    by (simp add: browser_baA_def mkBrowser_def mkFile_def filesOf_def js_sort_def
        compareFiles_def asciiLower_def js_def)
  show ?thesis using a th f d by simp
qed

text \<open>
  C8, as stated: after the upload of project/notes/readme.txt, a subsequent upload of
  project/todo.txt creates no folder and reuses the folder project. It fails when the
  second path comes in a later run of the handler: the \<^verbatim>\<open>pathToFolderId\<close> map lives
  for one run only and the handler never looks a folder up in \<^verbatim>\<open>state.folders\<close>, so
  the second run asks the gateway for a folder project again, and the state ends
  with two folders named project under the base folder.
\<close>

theorem folder_upload_later_run_counterexample:
  "snd (fst later_upload_example)
     = [CreateFolder (js ''project'') 1, CreateFolder (js ''notes'') 10,
        UploadFile (js ''readme.txt'') 11,
        CreateFolder (js ''project'') 1, UploadFile (js ''todo.txt'') 13]
   \<and> map (\<lambda>f. (id' f, name f, parentId f)) (foldersOf (fst (snd later_upload_example)))
     = [(1, js ''root'', None), (10, js ''project'', Some 1), (11, js ''notes'', Some 10),
        (13, js ''project'', Some 1)]
   \<and> map (\<lambda>f. (id' f, name f, parentId f)) (drop 3 (filesOf (fst (snd later_upload_example))))
     = [(12, js ''readme.txt'', Some 11), (14, js ''todo.txt'', Some 13)]
   \<and> snd (snd later_upload_example) = None"
  by (simp add: later_upload_example_def handleFolderInputChange_def Let_def segments_readme
      segments_todo path_segments_def ensureFolderPath_def appendFolder_def appendFile_def
      browser_bAa_def mkBrowser_def countingCreateFolder_def countingUploadFile_def
      mkFolder_def mkFile_def foldersOf_def filesOf_def js_def)

text \<open>
  C8, amended: the reuse holds within one run of the folder upload. In one run whose
  gateway calls succeed, the path project/notes/readme.txt makes exactly two folder
  creations (project under the base folder, then notes under project) and one file
  upload under notes; with project/todo.txt next in the same run, no further folder
  is created and the file is uploaded under the project folder already made. The
  gateway states \<open>g0\<close> to \<open>g4\<close> show that these calls, in this order, are all the
  calls made.
\<close>

theorem folder_upload_scenario:
  assumes "state b = Some st"
    and "createFolder g0 (js ''project'') (baseFolderOf b st) = Inr (project, g1)"
    and "createFolder g1 (js ''notes'') (id' project) = Inr (notes, g2)"
    and "uploadFile g2 (js ''readme.txt'') (id' notes) = Inr (readme, g3)"
    and "uploadFile g3 (js ''todo.txt'') (id' project) = Inr (todo, g4)"
  shows "handleFolderInputChange createFolder uploadFile
           [\<lparr>webkitRelativePath = js ''project/notes/readme.txt'',
             fileName = js ''readme.txt''\<rparr>] g0 b
         = (g3, b\<lparr>state := Some (st\<lparr>folders := folders st @ [project, notes],
                                     files := files st @ [readme]\<rparr>)\<rparr>, None)
       \<and> handleFolderInputChange createFolder uploadFile
           [\<lparr>webkitRelativePath = js ''project/notes/readme.txt'',
             fileName = js ''readme.txt''\<rparr>,
            \<lparr>webkitRelativePath = js ''project/todo.txt'', fileName = js ''todo.txt''\<rparr>] g0 b
         = (g4, b\<lparr>state := Some (st\<lparr>folders := folders st @ [project, notes],
                                     files := files st @ [readme, todo]\<rparr>)\<rparr>, None)"
proof -
  have ne: "js ''project'' \<noteq> []" "js ''readme.txt'' \<noteq> []" "js ''todo.txt'' \<noteq> []"
    "js ''project/notes/readme.txt'' \<noteq> []" "js ''project/todo.txt'' \<noteq> []"
    by (rule js_nonempty)+
  show ?thesis
    using assms ne ne[symmetric]
    by (simp add: handleFolderInputChange_def baseFolderOf_def Let_def segments_readme
        segments_todo segments_notes segments_project ensureFolderPath_def appendFolder_def
        appendFile_def)
qed

theorem folder_upload_scenario_witness:
  "handleFolderInputChange countingCreateFolder countingUploadFile
     [\<lparr>webkitRelativePath = js ''project/notes/readme.txt'', fileName = js ''readme.txt''\<rparr>,
      \<lparr>webkitRelativePath = js ''project/todo.txt'', fileName = js ''todo.txt''\<rparr>]
     (10, []) browser_bAa
   = ((14, [CreateFolder (js ''project'') 1, CreateFolder (js ''notes'') 10,
            UploadFile (js ''readme.txt'') 11, UploadFile (js ''todo.txt'') 10]),
      browser_bAa\<lparr>state := Some \<lparr>rootFolderId = 1,
         folders = [mkFolder 1 ''root'' None, mkFolder 10 ''project'' (Some 1),
                    mkFolder 11 ''notes'' (Some 10)],
         files = [mkFile 1 ''b'' (Some 1), mkFile 2 ''A'' (Some 1), mkFile 3 ''a'' (Some 1),
                  mkFile 12 ''readme.txt'' (Some 11), mkFile 13 ''todo.txt'' (Some 10)]\<rparr>\<rparr>,
      None)"
  using folder_upload_scenario[of browser_bAa
      "\<lparr>rootFolderId = 1, folders = [mkFolder 1 ''root'' None],
        files = [mkFile 1 ''b'' (Some 1), mkFile 2 ''A'' (Some 1), mkFile 3 ''a'' (Some 1)]\<rparr>"
      countingCreateFolder "(10, [])" "mkFolder 10 ''project'' (Some 1)"
      "(11, [CreateFolder (js ''project'') 1])" "mkFolder 11 ''notes'' (Some 10)"
      "(12, [CreateFolder (js ''project'') 1, CreateFolder (js ''notes'') 10])"
      countingUploadFile "mkFile 12 ''readme.txt'' (Some 11)"
      "(13, [CreateFolder (js ''project'') 1, CreateFolder (js ''notes'') 10,
             UploadFile (js ''readme.txt'') 11])"
      "mkFile 13 ''todo.txt'' (Some 10)"
      "(14, [CreateFolder (js ''project'') 1, CreateFolder (js ''notes'') 10,
             UploadFile (js ''readme.txt'') 11, UploadFile (js ''todo.txt'') 10])"]
  by (simp add: browser_bAa_def mkBrowser_def baseFolderOf_def countingCreateFolder_def
      countingUploadFile_def mkFolder_def mkFile_def)

text \<open>
  C9, as stated: every mutating operation on a file updates its \<^verbatim>\<open>modifiedAt\<close>, and
  after the local apply of toggleStar the file's \<^verbatim>\<open>modifiedAt\<close> is no longer its
  previous value. It fails: starring file 2 of the example flips \<^verbatim>\<open>starred\<close> and
  leaves every \<^verbatim>\<open>modifiedAt\<close> as it was.
\<close>

theorem toggleStar_modifiedAt_counterexample:
  "map starred (filesOf browser_bAa) = [False, False, False]
   \<and> map starred (filesOf (starToggleLocal 2 browser_bAa)) = [False, True, False]
   \<and> map modifiedAt (filesOf (starToggleLocal 2 browser_bAa))
       = map modifiedAt (filesOf browser_bAa)"
  by (simp add: starToggleLocal_def filesOf_def browser_bAa_def mkBrowser_def mkFile_def)

text \<open>
  C9, amended: no local apply changes a \<^verbatim>\<open>modifiedAt\<close>, and each changes its own
  fields only. After the optimistic apply of toggleStar on the id \<open>fileId\<close> every file
  has every field other than \<^verbatim>\<open>starred\<close> as before, \<^verbatim>\<open>modifiedAt\<close> included; the
  files with that id have \<^verbatim>\<open>starred\<close> set to the negation of what the first of them
  had, the other files keep theirs; and the folders are as before. The same holds of
  toggleShare with \<^verbatim>\<open>isShared\<close>. After the local apply of moveToTrash every folder and
  file has every field other than \<^verbatim>\<open>trashed\<close> and \<^verbatim>\<open>originalParentId\<close> as before,
  and after the local apply of restore every field other than \<^verbatim>\<open>trashed\<close>,
  \<^verbatim>\<open>parentId\<close> and \<^verbatim>\<open>originalParentId\<close>; \<^verbatim>\<open>modifiedAt\<close> is as before in both.
\<close>

theorem local_apply_changes_only_its_fields:
  "map (\<lambda>f. f\<lparr>starred := False\<rparr>) (filesOf (starToggleLocal fileId b))
     = map (\<lambda>f. f\<lparr>starred := False\<rparr>) (filesOf b)
   \<and> map starred (filesOf (starToggleLocal fileId b))
     = (case find (\<lambda>f. id' f = fileId) (filesOf b) of
          None \<Rightarrow> map starred (filesOf b)
        | Some file \<Rightarrow> map (\<lambda>f. if id' f = fileId then \<not> starred file else starred f) (filesOf b))
   \<and> map modifiedAt (filesOf (starToggleLocal fileId b)) = map modifiedAt (filesOf b)
   \<and> foldersOf (starToggleLocal fileId b) = foldersOf b
   \<and> map (\<lambda>f. f\<lparr>isShared := False\<rparr>) (filesOf (shareToggleLocal fileId b))
     = map (\<lambda>f. f\<lparr>isShared := False\<rparr>) (filesOf b)
   \<and> map isShared (filesOf (shareToggleLocal fileId b))
     = (case find (\<lambda>f. id' f = fileId) (filesOf b) of
          None \<Rightarrow> map isShared (filesOf b)
        | Some file \<Rightarrow> map (\<lambda>f. if id' f = fileId then \<not> isShared file else isShared f) (filesOf b))
   \<and> map modifiedAt (filesOf (shareToggleLocal fileId b)) = map modifiedAt (filesOf b)
   \<and> foldersOf (shareToggleLocal fileId b) = foldersOf b
   \<and> map (\<lambda>f. f\<lparr>trashed := False, originalParentId := None\<rparr>)
       (filesOf (handleMoveToTrashSelected confirmed b))
     = map (\<lambda>f. f\<lparr>trashed := False, originalParentId := None\<rparr>) (filesOf b)
   \<and> map (\<lambda>f. f\<lparr>trashed := False, originalParentId := None\<rparr>)
       (foldersOf (handleMoveToTrashSelected confirmed b))
     = map (\<lambda>f. f\<lparr>trashed := False, originalParentId := None\<rparr>) (foldersOf b)
   \<and> map modifiedAt (filesOf (handleMoveToTrashSelected confirmed b)) = map modifiedAt (filesOf b)
   \<and> map (\<lambda>f. f\<lparr>trashed := False, parentId := None, originalParentId := None\<rparr>)
       (filesOf (handleRestoreSelected b))
     = map (\<lambda>f. f\<lparr>trashed := False, parentId := None, originalParentId := None\<rparr>) (filesOf b)
   \<and> map (\<lambda>f. f\<lparr>trashed := False, parentId := None, originalParentId := None\<rparr>)
       (foldersOf (handleRestoreSelected b))
     = map (\<lambda>f. f\<lparr>trashed := False, parentId := None, originalParentId := None\<rparr>) (foldersOf b)
   \<and> map modifiedAt (filesOf (handleRestoreSelected b)) = map modifiedAt (filesOf b)"
proof (intro conjI)
  show "map (\<lambda>f. f\<lparr>starred := False\<rparr>) (filesOf (starToggleLocal fileId b))
     = map (\<lambda>f. f\<lparr>starred := False\<rparr>) (filesOf b)"
    by (auto simp: starToggleLocal_def filesOf_def Let_def intro!: map_same_after
        split: option.splits)
  show "map starred (filesOf (starToggleLocal fileId b))
     = (case find (\<lambda>f. id' f = fileId) (filesOf b) of
          None \<Rightarrow> map starred (filesOf b)
        | Some file \<Rightarrow> map (\<lambda>f. if id' f = fileId then \<not> starred file else starred f) (filesOf b))"
    by (auto simp: starToggleLocal_def filesOf_def Let_def split: option.splits)
  show "map modifiedAt (filesOf (starToggleLocal fileId b)) = map modifiedAt (filesOf b)"
    by (auto simp: starToggleLocal_def filesOf_def Let_def intro!: map_same_after
        split: option.splits)
  show "foldersOf (starToggleLocal fileId b) = foldersOf b"
    by (auto simp: starToggleLocal_def foldersOf_def Let_def split: option.splits)
  show "map (\<lambda>f. f\<lparr>isShared := False\<rparr>) (filesOf (shareToggleLocal fileId b))
     = map (\<lambda>f. f\<lparr>isShared := False\<rparr>) (filesOf b)"
    by (auto simp: shareToggleLocal_def filesOf_def Let_def intro!: map_same_after
        split: option.splits)
  show "map isShared (filesOf (shareToggleLocal fileId b))
     = (case find (\<lambda>f. id' f = fileId) (filesOf b) of
          None \<Rightarrow> map isShared (filesOf b)
        | Some file \<Rightarrow> map (\<lambda>f. if id' f = fileId then \<not> isShared file else isShared f) (filesOf b))"
    by (auto simp: shareToggleLocal_def filesOf_def Let_def split: option.splits)
  show "map modifiedAt (filesOf (shareToggleLocal fileId b)) = map modifiedAt (filesOf b)"
    by (auto simp: shareToggleLocal_def filesOf_def Let_def intro!: map_same_after
        split: option.splits)
  show "foldersOf (shareToggleLocal fileId b) = foldersOf b"
    by (auto simp: shareToggleLocal_def foldersOf_def Let_def split: option.splits)
  show "map (\<lambda>f. f\<lparr>trashed := False, originalParentId := None\<rparr>)
       (filesOf (handleMoveToTrashSelected confirmed b))
     = map (\<lambda>f. f\<lparr>trashed := False, originalParentId := None\<rparr>) (filesOf b)"
    by (auto simp: handleMoveToTrashSelected_def filesOf_def Let_def trashItem_def
        intro!: map_same_after split: option.splits)
  show "map (\<lambda>f. f\<lparr>trashed := False, originalParentId := None\<rparr>)
       (foldersOf (handleMoveToTrashSelected confirmed b))
     = map (\<lambda>f. f\<lparr>trashed := False, originalParentId := None\<rparr>) (foldersOf b)"
    by (auto simp: handleMoveToTrashSelected_def foldersOf_def Let_def trashItem_def
        intro!: map_same_after split: option.splits)
  show "map modifiedAt (filesOf (handleMoveToTrashSelected confirmed b)) = map modifiedAt (filesOf b)"
    by (auto simp: handleMoveToTrashSelected_def filesOf_def Let_def trashItem_def
        intro!: map_same_after split: option.splits)
  show "map (\<lambda>f. f\<lparr>trashed := False, parentId := None, originalParentId := None\<rparr>)
       (filesOf (handleRestoreSelected b))
     = map (\<lambda>f. f\<lparr>trashed := False, parentId := None, originalParentId := None\<rparr>) (filesOf b)"
    by (auto simp: handleRestoreSelected_def filesOf_def Let_def restoreItem_def
        intro!: map_same_after split: option.splits)
  show "map (\<lambda>f. f\<lparr>trashed := False, parentId := None, originalParentId := None\<rparr>)
       (foldersOf (handleRestoreSelected b))
     = map (\<lambda>f. f\<lparr>trashed := False, parentId := None, originalParentId := None\<rparr>) (foldersOf b)"
    by (auto simp: handleRestoreSelected_def foldersOf_def Let_def restoreItem_def
        intro!: map_same_after split: option.splits)
  show "map modifiedAt (filesOf (handleRestoreSelected b)) = map modifiedAt (filesOf b)"
    by (auto simp: handleRestoreSelected_def filesOf_def Let_def restoreItem_def
        intro!: map_same_after split: option.splits)
qed

text \<open>
  C10. After the local apply of moveToTrash, restore, permanentDelete and emptyTrash
  the selection is empty, whatever was selected and whichever section is shown. The
  local apply happens when the state is loaded, the confirmation (where the handler
  asks for one) is given and, for emptyTrash, something is trashed; otherwise the
  handler returns at once and the selection stays as it was.
\<close>

theorem selection_cleared_by_apply:
  "selectedIds (handleMoveToTrashSelected confirmed b) =
     (if state b \<noteq> None \<and> confirmed then [] else selectedIds b)
   \<and> selectedIds (handleRestoreSelected b) =
     (if state b \<noteq> None then [] else selectedIds b)
   \<and> selectedIds (handlePermanentDeleteSelected confirmed b) =
     (if state b \<noteq> None \<and> confirmed then [] else selectedIds b)
   \<and> selectedIds (handleEmptyTrash confirmed b) =
     (if state b \<noteq> None \<and> hasTrash b \<and> confirmed then [] else selectedIds b)"
  by (auto simp: handleMoveToTrashSelected_def handleRestoreSelected_def
      handlePermanentDeleteSelected_def handleEmptyTrash_def Let_def
      split: option.splits)

end
